theory Spec2Isabelle
  imports Complex_Main "HOL-Library.AList"
begin

section \<open>The channel library of handleBinder.js, embedded\<close>

text \<open>
  The model follows the channel library (\<^verbatim>\<open>Channel.build\<close> and the functions around it).
  JavaScript tables are association lists or maps, the variables a channel closes
  over are the fields of a record, a \<^verbatim>\<open>throw\<close> is the left summand of a sum, and
  client code (handlers and callbacks) is a parameter that says how a call of it ends.
\<close>

subsection \<open>The transaction counter\<close>

text \<open>
  \<^verbatim>\<open>var s_curTranId = Math.floor(Math.random()*1000001);\<close>
  The argument \<open>r\<close> is what \<^verbatim>\<open>Math.random()\<close> returned, a number with \<open>0 \<le> r < 1\<close>.
\<close>

definition initial_s_curTranId :: "real \<Rightarrow> int" where
  "initial_s_curTranId r = \<lfloor>r * 1000001\<rfloor>"

subsection \<open>JavaScript values of the calling side\<close>

text \<open>
  The arguments of \<^verbatim>\<open>call\<close> and \<^verbatim>\<open>notify\<close> are client values. Objects and arrays live
  in a store and are named by their address (\<open>Ref\<close>), since \<^verbatim>\<open>pruneFunctions\<close> compares
  objects by identity and deletes their properties in place; a function is named by a
  number. Numbers are integers here: the code only tests them for truthiness.
\<close>

datatype jsval = Undefined | Null | Bool bool | Num int | Str string | Fn nat | Ref nat

datatype js_type = TUndefined | TObject | TBoolean | TNumber | TString | TFunction

fun typeof :: "jsval \<Rightarrow> js_type" where
  "typeof Undefined = TUndefined"
| "typeof Null = TObject"
| "typeof (Bool b) = TBoolean"
| "typeof (Num n) = TNumber"
| "typeof (Str s) = TString"
| "typeof (Fn f) = TFunction"
| "typeof (Ref a) = TObject"

fun truthy :: "jsval \<Rightarrow> bool" where
  "truthy Undefined = False"
| "truthy Null = False"
| "truthy (Bool b) = b"
| "truthy (Num n) = (n \<noteq> 0)"
| "truthy (Str s) = (s \<noteq> [])"
| "truthy (Fn f) = True"
| "truthy (Ref a) = True"

fun str_of :: "jsval \<Rightarrow> string" where
  "str_of (Str s) = s"
| "str_of v = []"

text \<open>
  An object is the list of its own enumerable properties in the order \<^verbatim>\<open>for (k in obj)\<close>
  visits them (an array has its indices as keys); the store is the list of all objects,
  an address being a position in it. An object whose properties are accessors, or that
  has a property of its own under the name \<^verbatim>\<open>__proto__\<close>, is outside this model.
\<close>

type_synonym js_object = "(string \<times> jsval) list"
type_synonym js_heap = "js_object list"

definition props :: "js_heap \<Rightarrow> nat \<Rightarrow> js_object" where
  "props h a = (if a < length h then h ! a else [])"

subsection \<open>Values of the receiving side\<close>

text \<open>
  What arrives in a message was parsed from JSON, so it is a tree without sharing; the
  same type holds what a handler returns or throws. An object carries its class: a
  plain object, an array with its \<^verbatim>\<open>length\<close> (and its indices as keys), or an instance
  of \<^verbatim>\<open>Error\<close> with the name of its constructor. A function is a client function, or
  the function that \<^verbatim>\<open>onMessage\<close> creates for a callback path of a request: it closes
  over the transaction (its id and its callback names) and the path.
\<close>

datatype fnval = ClientFn nat | RemoteCallback int "string list" string

datatype obj_class = PlainObject | ArrayObject nat | ErrorObject string

datatype jstree = VUndef | VNull | VBool bool | VNum int | VStr string | VFn fnval
  | VObj obj_class "(string \<times> jstree) list"

fun typeof_t :: "jstree \<Rightarrow> js_type" where
  "typeof_t VUndef = TUndefined"
| "typeof_t VNull = TObject"
| "typeof_t (VBool b) = TBoolean"
| "typeof_t (VNum n) = TNumber"
| "typeof_t (VStr s) = TString"
| "typeof_t (VFn f) = TFunction"
| "typeof_t (VObj c ps) = TObject"

fun truthy_t :: "jstree \<Rightarrow> bool" where
  "truthy_t VUndef = False"
| "truthy_t VNull = False"
| "truthy_t (VBool b) = b"
| "truthy_t (VNum n) = (n \<noteq> 0)"
| "truthy_t (VStr s) = (s \<noteq> [])"
| "truthy_t (VFn f) = True"
| "truthy_t (VObj c ps) = True"

text \<open>How a call of client code, or of a built-in function, ends.\<close>

datatype outcome = Returns jstree | Throws jstree

text \<open>The \<^verbatim>\<open>TypeError\<close> that the language throws; its message text is left out.\<close>

definition type_error :: jstree where
  "type_error = VObj (ErrorObject ''TypeError'') []"

text \<open>
  \<^verbatim>\<open>e[k]\<close>: \<open>None\<close> stands for the \<^verbatim>\<open>TypeError\<close> of reading a property of \<^verbatim>\<open>null\<close> or
  \<^verbatim>\<open>undefined\<close>; a property that is not there reads \<^verbatim>\<open>undefined\<close>.
\<close>

fun get_prop :: "jstree \<Rightarrow> string \<Rightarrow> jstree option" where
  "get_prop VUndef k = None"
| "get_prop VNull k = None"
| "get_prop (VObj c ps) k = Some (case map_of ps k of Some v \<Rightarrow> v | None \<Rightarrow> VUndef)"
| "get_prop v k = Some VUndef"

subsection \<open>Client code and built-in functions\<close>

text \<open>
  Client code, the two built-ins that render a thrown value, and the functions that
  every object inherits. A client function is known by what a call of it does: the
  operations it performs on the transaction it was given (a handler of a request; it is
  taken not to catch what they throw) and how it ends. \<open>builtin k args\<close> is how a call of
  the function that \<^verbatim>\<open>Object.prototype\<close> has under the name \<open>k\<close> ends. Client code that
  calls back into the channel, or that changes the objects it is called on, is outside
  this model.
\<close>

datatype trans_op = Invoke string jstree | TransError jstree jstree | Complete jstree | DelayReturn jstree

record environment =
  client_fn :: "nat \<Rightarrow> jstree list \<Rightarrow> trans_op list \<times> outcome"
  json_stringify :: "jstree \<Rightarrow> outcome"
  to_string :: "jstree \<Rightarrow> outcome"
  builtin :: "string \<Rightarrow> jstree list \<Rightarrow> outcome"

subsection \<open>What every object inherits\<close>

text \<open>
  The tables of the library (\<^verbatim>\<open>s_boundChans\<close> and its tables of scopes, \<^verbatim>\<open>regTbl\<close>, the
  \<^verbatim>\<open>callbacks\<close> of a call) are plain objects, and so are the objects of the client: a
  lookup under a name that an object does not have of its own finds what
  \<^verbatim>\<open>Object.prototype\<close> has under that name. That is one of its functions, known here by
  its \<^verbatim>\<open>length\<close> (the number of its parameters), or, under \<^verbatim>\<open>__proto__\<close>, the object
  \<^verbatim>\<open>Object.prototype\<close> itself, which has no \<^verbatim>\<open>length\<close>. A page that adds properties to
  \<^verbatim>\<open>Object.prototype\<close> is outside this model.
\<close>

datatype inherited = InheritedFunction nat | InheritedObject

definition object_prototype :: "string \<Rightarrow> inherited option" where
  "object_prototype k =
     map_of [(''constructor'', InheritedFunction 1),
             (''hasOwnProperty'', InheritedFunction 1),
             (''isPrototypeOf'', InheritedFunction 1),
             (''propertyIsEnumerable'', InheritedFunction 1),
             (''toLocaleString'', InheritedFunction 0),
             (''toString'', InheritedFunction 0),
             (''valueOf'', InheritedFunction 0),
             (''__defineGetter__'', InheritedFunction 2),
             (''__defineSetter__'', InheritedFunction 2),
             (''__lookupGetter__'', InheritedFunction 1),
             (''__lookupSetter__'', InheritedFunction 1),
             (''__proto__'', InheritedObject)] k"

subsection \<open>The registry of bound channels\<close>

text \<open>
  \<^verbatim>\<open>s_boundChans\<close> maps an origin to a table that maps a scope to the array of
  \<^verbatim>\<open>{win, handler}\<close> entries. A window is a number (its identity), a handler is the
  number of the channel whose \<^verbatim>\<open>onMessage\<close> it is. Both tables list their own properties
  in the order in which they were created. An origin is \<^verbatim>\<open>'*'\<close> or what \<^verbatim>\<open>build\<close> made of
  \<^verbatim>\<open>cfg.origin\<close>, which starts with \<^verbatim>\<open>http\<close>, and the origin of a message is what the
  browser says: no origin is the name of an inherited property. A scope is any string
  without \<^verbatim>\<open>::\<close>.
\<close>

record bound_chan =
  win :: nat
  handler :: nat

type_synonym scope_table = "(string \<times> bound_chan list) list"
type_synonym bound_chans = "(string \<times> scope_table) list"

text \<open>What \<^verbatim>\<open>s_addBoundChan\<close> throws: its own message, or the \<^verbatim>\<open>TypeError\<close> of the language.\<close>

datatype registry_error = AlreadyBound | RegistryTypeError

fun hasWin :: "nat \<Rightarrow> bound_chan list \<Rightarrow> bool" where
  "hasWin w [] = False"
| "hasWin w (e # arr) = (if win e = w then True else hasWin w arr)"

text \<open>
  What \<^verbatim>\<open>s_boundChans[k] && s_boundChans[k][scope]\<close> finds: an array of entries, an
  inherited property of the table of scopes, or nothing (\<^verbatim>\<open>undefined\<close>).
\<close>

datatype slot = Chans "bound_chan list" | Proto inherited | Missing

definition slot_at :: "bound_chans \<Rightarrow> string \<Rightarrow> string \<Rightarrow> slot" where
  "slot_at reg k scope =
     (case map_of reg k of
        None \<Rightarrow> Missing
      | Some tbl \<Rightarrow>
          (case map_of tbl scope of
             Some arr \<Rightarrow> Chans arr
           | None \<Rightarrow> (case object_prototype scope of Some p \<Rightarrow> Proto p | None \<Rightarrow> Missing)))"

text \<open>
  \<^verbatim>\<open>exists\<close> after \<^verbatim>\<open>if (x) exists = hasWin(x)\<close>, when it was \<^verbatim>\<open>false\<close> before. On an
  inherited function \<^verbatim>\<open>hasWin\<close> reads \<^verbatim>\<open>arr[0].win\<close> of \<^verbatim>\<open>undefined\<close> when the \<^verbatim>\<open>length\<close> of
  the function is not \<open>0\<close>; \<^verbatim>\<open>Object.prototype\<close> has no \<^verbatim>\<open>length\<close>, so the loop does not run.
\<close>

fun hasWin_at :: "nat \<Rightarrow> slot \<Rightarrow> registry_error + bool" where
  "hasWin_at w (Chans arr) = Inr (hasWin w arr)"
| "hasWin_at w (Proto (InheritedFunction n)) = (if n = 0 then Inr False else Inl RegistryTypeError)"
| "hasWin_at w (Proto InheritedObject) = Inr False"
| "hasWin_at w Missing = Inr False"

text \<open>
  The loop \<^verbatim>\<open>for (var k in s_boundChans)\<close> of the wildcard branch, over the keys \<open>ks\<close>
  still to visit; it skips the key \<^verbatim>\<open>'*'\<close>, looks only at what has the type \<^verbatim>\<open>'object'\<close>
  (\<^verbatim>\<open>hasWin\<close> of \<^verbatim>\<open>Object.prototype\<close> is \<^verbatim>\<open>false\<close>), and stops at the first array that has
  the window.
\<close>

fun other_origins :: "nat \<Rightarrow> string \<Rightarrow> bound_chans \<Rightarrow> string list \<Rightarrow> bool" where
  "other_origins w scope reg [] = False"
| "other_origins w scope reg (k # ks) =
     (if k = ''*'' then other_origins w scope reg ks
      else (case slot_at reg k scope of
              Chans arr \<Rightarrow> (if hasWin w arr then True else other_origins w scope reg ks)
            | Proto p \<Rightarrow> other_origins w scope reg ks
            | Missing \<Rightarrow> other_origins w scope reg ks))"

text \<open>The value of \<^verbatim>\<open>exists\<close> before the test \<^verbatim>\<open>if (exists) throw\<close>, or what was thrown before.\<close>

definition overlaps :: "nat \<Rightarrow> string \<Rightarrow> string \<Rightarrow> bound_chans \<Rightarrow> registry_error + bool" where
  "overlaps w origin scope reg =
     (if origin = ''*'' then Inr (other_origins w scope reg (map fst reg))
      else (case hasWin_at w (slot_at reg ''*'' scope) of
              Inl e \<Rightarrow> Inl e
            | Inr exists \<Rightarrow>
                if \<not> exists then hasWin_at w (slot_at reg origin scope) else Inr exists))"

text \<open>
  \<^verbatim>\<open>s_addBoundChan(win, origin, scope, handler)\<close>: what it throws, if anything, and the
  registry afterwards. Under the scope \<^verbatim>\<open>__proto__\<close> the last line calls \<^verbatim>\<open>push\<close> of
  \<^verbatim>\<open>Object.prototype\<close>, which has none, after the table of the origin was created.
\<close>

definition s_addBoundChan ::
  "nat \<Rightarrow> string \<Rightarrow> string \<Rightarrow> nat \<Rightarrow> bound_chans \<Rightarrow> registry_error option \<times> bound_chans" where
  "s_addBoundChan w origin scope h reg =
     (case overlaps w origin scope reg of
        Inl e \<Rightarrow> (Some e, reg)
      | Inr exists \<Rightarrow>
          if exists then (Some AlreadyBound, reg)
          else (let tbl = (case map_of reg origin of Some t \<Rightarrow> t | None \<Rightarrow> [])
                in (case map_of tbl scope of
                      Some arr \<Rightarrow>
                        (None, AList.update origin
                                 (AList.update scope (arr @ [\<lparr>win = w, handler = h\<rparr>]) tbl) reg)
                    | None \<Rightarrow>
                        if object_prototype scope = Some InheritedObject then
                          (Some RegistryTypeError, AList.update origin tbl reg)
                        else
                          (None, AList.update origin
                                   (AList.update scope [\<lparr>win = w, handler = h\<rparr>] tbl) reg))))"

text \<open>The windows registered under an origin and a scope, in the order of the array.\<close>

definition wins :: "bound_chans \<Rightarrow> string \<Rightarrow> string \<Rightarrow> nat list" where
  "wins reg k scope = (case slot_at reg k scope of Chans arr \<Rightarrow> map win arr | Proto p \<Rightarrow> [] | Missing \<Rightarrow> [])"

subsection \<open>Extracting the callbacks from the parameters of a call\<close>

text \<open>
  \<^verbatim>\<open>callbacks\<close>, \<^verbatim>\<open>callbackNames\<close> and \<^verbatim>\<open>seen\<close> are the variables of \<^verbatim>\<open>call\<close> that
  \<^verbatim>\<open>pruneFunctions\<close> updates; \<open>objs\<close> is the store, which it updates by \<^verbatim>\<open>delete obj[k]\<close>.
\<close>

record prune_state =
  callbacks :: "(string \<times> jsval) list"
  callbackNames :: "string list"
  seen :: "jsval list"
  objs :: js_heap

definition recursive_params :: string where
  "recursive_params = ''params cannot be a recursive data structure''"

text \<open>
  \<^verbatim>\<open>obj.hasOwnProperty(k)\<close> for a key \<open>k\<close> that the loop visits, \<open>ps\<close> being the properties of
  \<^verbatim>\<open>obj\<close>. The method is looked up in the object: where the object has no property
  \<^verbatim>\<open>hasOwnProperty\<close> of its own it is the inherited one, which says whether \<open>k\<close> is a property
  of the object; a property of its own is called if it is a function (it is client code,
  which gets no transaction), and calling anything else throws a \<^verbatim>\<open>TypeError\<close>.
\<close>

definition hasOwnProperty :: "environment \<Rightarrow> js_object \<Rightarrow> string \<Rightarrow> outcome" where
  "hasOwnProperty env ps k =
     (case map_of ps ''hasOwnProperty'' of
        None \<Rightarrow> Returns (VBool (map_of ps k \<noteq> None))
      | Some (Fn f) \<Rightarrow>
          (case client_fn env f [VStr k] of
             ([], out) \<Rightarrow> out
           | (op # ops, out) \<Rightarrow> Throws type_error)
      | Some v \<Rightarrow> Throws type_error)"

text \<open>
  \<^verbatim>\<open>pruneFunctions(path, obj)\<close>, and \<open>prune_keys\<close> for its loop \<^verbatim>\<open>for (var k in obj)\<close> over
  the keys still to visit. The second argument bounds the depth of the recursion: the
  result is \<open>None\<close> when the bound is reached, and otherwise the state the walk ended in,
  together with what it threw, if it threw. A key whose property is gone when the
  loop reaches it is skipped, as \<^verbatim>\<open>for\<close>-\<^verbatim>\<open>in\<close> does.
\<close>

fun pruneFunctions :: "environment \<Rightarrow> nat \<Rightarrow> string \<Rightarrow> jsval \<Rightarrow> prune_state \<Rightarrow> (jstree option \<times> prune_state) option"
  and prune_keys :: "environment \<Rightarrow> nat \<Rightarrow> string \<Rightarrow> nat \<Rightarrow> string list \<Rightarrow> prune_state \<Rightarrow> (jstree option \<times> prune_state) option"
where
  "pruneFunctions env 0 path obj st = None"
| "pruneFunctions env (Suc n) path obj st =
     (if obj \<in> set (seen st) then Some (Some (VStr recursive_params), st)
      else (let st1 = (if truthy obj then st\<lparr>seen := seen st @ [obj]\<rparr> else st)
            in (case obj of
                  Ref a \<Rightarrow> prune_keys env n path a (map fst (props (objs st1) a)) st1
                | _ \<Rightarrow> Some (None, st1))))"
| "prune_keys env n path a [] st = Some (None, st)"
| "prune_keys env n path a (k # ks) st =
     (case map_of (props (objs st) a) k of
        None \<Rightarrow> prune_keys env n path a ks st
      | Some v \<Rightarrow>
          (case hasOwnProperty env (props (objs st) a) k of
             Throws x \<Rightarrow> Some (Some x, st)
           | Returns own \<Rightarrow>
               if \<not> truthy_t own then prune_keys env n path a ks st
               else
                 (let np = path @ (if path \<noteq> [] then ''/'' else []) @ k
                  in if typeof v = TFunction then
                       prune_keys env n path a ks
                         (st\<lparr>callbacks := AList.update np v (callbacks st),
                             callbackNames := callbackNames st @ [np],
                             objs := (objs st)[a := AList.delete k (props (objs st) a)]\<rparr>)
                     else if typeof v = TObject then
                       (case pruneFunctions env n np v st of
                          None \<Rightarrow> None
                        | Some (Some e, st') \<Rightarrow> Some (Some e, st')
                        | Some (None, st') \<Rightarrow> prune_keys env n path a ks st')
                     else prune_keys env n path a ks st)))"

text \<open>No object of the store has a property \<^verbatim>\<open>hasOwnProperty\<close> of its own.\<close>

definition plain :: "js_heap \<Rightarrow> bool" where
  "plain h \<longleftrightarrow> (\<forall>b. map_of (props h b) ''hasOwnProperty'' = None)"

definition shrinks :: "js_heap \<Rightarrow> js_heap \<Rightarrow> bool" where
  "shrinks h h' \<longleftrightarrow>
     length h' = length h \<and>
     (\<forall>b k v. map_of (props h' b) k = Some v \<longrightarrow> map_of (props h b) k = Some v) \<and>
     (\<forall>b k v. map_of (props h b) k = Some v \<and> typeof v \<noteq> TFunction \<longrightarrow> map_of (props h' b) k = Some v)"

definition grows :: "prune_state \<Rightarrow> prune_state \<Rightarrow> bool" where
  "grows st st' \<longleftrightarrow>
     shrinks (objs st) (objs st') \<and> set (seen st) \<subseteq> set (seen st') \<and>
     set (callbackNames st) \<subseteq> set (callbackNames st')"

definition unseen :: "prune_state \<Rightarrow> nat" where
  "unseen st = card {a. a < length (objs st) \<and> Ref a \<notin> set (seen st)}"

fun walk :: "js_heap \<Rightarrow> nat \<Rightarrow> string list \<Rightarrow> nat option" where
  "walk h a [] = Some a"
| "walk h a (k # ks) = (case map_of (props h a) k of Some (Ref c) \<Rightarrow> walk h c ks | _ \<Rightarrow> None)"

definition fn_free :: "js_heap \<Rightarrow> nat \<Rightarrow> bool" where
  "fn_free h b \<longleftrightarrow> (\<forall>k v. map_of (props h b) k = Some v \<longrightarrow> typeof v \<noteq> TFunction)"

text \<open>The variables of \<^verbatim>\<open>call\<close> before the walk: nothing collected, nothing seen.\<close>

definition prune_start :: "js_heap \<Rightarrow> prune_state" where
  "prune_start h = \<lparr>callbacks = [], callbackNames = [], seen = [], objs = h\<rparr>"

subsection \<open>Decimal numerals and quoted text in the strings the library builds\<close>

definition digit :: "nat \<Rightarrow> char" where
  "digit d = ''0123456789'' ! d"

function show_nat :: "nat \<Rightarrow> string" where
  "show_nat n = (if n < 10 then [digit n] else show_nat (n div 10) @ [digit (n mod 10)])"
  by pat_completeness auto
termination
  by (relation "measure id") auto

definition show_int :: "int \<Rightarrow> string" where
  "show_int i = (if i < 0 then ''-'' @ show_nat (nat (- i)) else show_nat (nat i))"

definition quoted :: "string \<Rightarrow> string" where
  "quoted s = [CHR 0x27] @ s @ [CHR 0x27]"

subsection \<open>Messages\<close>

text \<open>
  An incoming message, typed as the comment at the head of the library gives the five
  message formats: an integer id, a string method, a string callback, a string error,
  any params, result and message, and the list of callback paths of a request. A field
  that is absent is \<open>None\<close> (\<open>VUndef\<close> for the three fields of any type).
\<close>

record message =
  m_id :: "int option"
  m_method :: "string option"
  m_params :: jstree
  m_callbacks :: "string list option"
  m_callback :: "string option"
  m_error :: "string option"
  m_message :: jstree
  m_result :: jstree

text \<open>
  A message the channel posts. The params of a request or a notification are the
  client's value; the text that \<^verbatim>\<open>JSON.stringify\<close> makes of a message is not modelled.
\<close>

datatype out_msg =
    Request int string jsval "string list option"
  | Notification string jsval
  | CallbackInvocation int string jstree
  | ErrorResponse int jstree jstree
  | Response int jstree

subsection \<open>A channel and the state of the page\<close>

text \<open>
  An entry of \<^verbatim>\<open>outTbl\<close>, the variables \<^verbatim>\<open>build\<close> closes over, a timer armed by
  \<^verbatim>\<open>setTransactionTimeout\<close>, and the variables shared by all channels of the page.
  \<open>posted\<close> lists what was handed to \<^verbatim>\<open>cfg.window.postMessage\<close>, oldest first, and
  \<open>log\<close> the calls of client handlers and callbacks. The handlers of the reserved methods
  (\<^verbatim>\<open>__ready\<close>, \<^verbatim>\<open>__bind\<close>, \<^verbatim>\<open>__unbind\<close>) are not modelled, so \<open>ready\<close> is whatever
  the state says; the debug output and the two message observers, which cannot change
  what a channel does, are left out.
\<close>

record out_entry =
  e_callbacks :: "(string \<times> jsval) list"
  e_error :: jsval
  e_success :: jsval

record chan =
  cfg_scope :: string
  regTbl :: "string \<rightharpoonup> nat"
  outTbl :: "int \<rightharpoonup> out_entry"
  inTbl :: "int set"
  ready :: bool
  pendingQueue :: "out_msg list"
  posted :: "out_msg list"

record timer =
  t_chan :: nat
  t_transId :: int
  t_timeout :: int
  t_method :: string

datatype event =
    SuccessCalled int "jstree list"
  | ErrorCalled int "jstree list"
  | CallbackCalled int string "jstree list"
  | HandlerCalled string "jstree list"

record world =
  s_curTranId :: int
  s_transIds :: "int \<rightharpoonup> nat"
  s_boundChans :: bound_chans
  chans :: "nat \<Rightarrow> chan"
  timers :: "timer list"
  log :: "event list"

subsection \<open>Scope\<close>

text \<open>\<^verbatim>\<open>s.split('::')\<close> and \<^verbatim>\<open>s.split('/')\<close>.\<close>

fun split_colons :: "string \<Rightarrow> string list" where
  "split_colons [] = [[]]"
| "split_colons [c] = [[c]]"
| "split_colons (c # d # cs) =
     (if c = CHR '':'' \<and> d = CHR '':'' then [] # split_colons cs
      else (case split_colons (d # cs) of p # ps \<Rightarrow> (c # p) # ps | [] \<Rightarrow> [[c]]))"

fun split_slash :: "string \<Rightarrow> string list" where
  "split_slash [] = [[]]"
| "split_slash (c # cs) =
     (if c = CHR ''/'' then [] # split_slash cs
      else (case split_slash cs of p # ps \<Rightarrow> (c # p) # ps | [] \<Rightarrow> [[c]]))"

text \<open>The string contains \<^verbatim>\<open>::\<close>.\<close>

definition has_colons :: "string \<Rightarrow> bool" where
  "has_colons s \<longleftrightarrow> (\<exists>p q. s = p @ ''::'' @ q)"

datatype build_error = ScopeNotString | ScopeHasColons

text \<open>
  The scope part of \<^verbatim>\<open>Channel.build\<close>: the value of \<^verbatim>\<open>cfg.scope\<close> after validation, or
  what is thrown.
\<close>

definition build_scope :: "jsval \<Rightarrow> build_error + string" where
  "build_scope sc =
     (if typeof sc \<noteq> TUndefined then
        (if typeof sc \<noteq> TString then Inl ScopeNotString
         else if length (split_colons (str_of sc)) > 1 then Inl ScopeHasColons
         else Inr (str_of sc))
      else Inr ''__default'')"

definition scopeMethod :: "string \<Rightarrow> string \<Rightarrow> string" where
  "scopeMethod scope m = scope @ ''::'' @ m"

subsection \<open>Posting\<close>

definition postMessage :: "out_msg \<Rightarrow> bool \<Rightarrow> chan \<Rightarrow> chan" where
  "postMessage msg force ch =
     (if \<not> force \<and> \<not> ready ch then ch\<lparr>pendingQueue := pendingQueue ch @ [msg]\<rparr>
      else ch\<lparr>posted := posted ch @ [msg]\<rparr>)"

subsection \<open>call and notify\<close>

record call_args =
  c_method :: jsval
  c_params :: jsval
  c_success :: jsval
  c_error :: jsval
  c_timeout :: "int option"

record notify_args =
  n_method :: jsval
  n_params :: jsval

definition setTransactionTimeout :: "nat \<Rightarrow> int \<Rightarrow> int \<Rightarrow> string \<Rightarrow> world \<Rightarrow> world" where
  "setTransactionTimeout c transId timeout method w =
     w\<lparr>timers := timers w @ [\<lparr>t_chan = c, t_transId = transId, t_timeout = timeout, t_method = method\<rparr>]\<rparr>"

text \<open>The argument passes the checks at the head of \<^verbatim>\<open>call\<close>: a non-empty string \<^verbatim>\<open>method\<close> and a
  function \<^verbatim>\<open>success\<close>.\<close>

definition valid_call :: "call_args \<Rightarrow> bool" where
  "valid_call m \<longleftrightarrow> truthy (c_method m) \<and> typeof (c_method m) = TString \<and>
     truthy (c_success m) \<and> typeof (c_success m) = TFunction"

text \<open>\<open>sends ch ch' msg\<close>: from \<open>ch\<close> to \<open>ch'\<close> the message went through \<^verbatim>\<open>postMessage(msg)\<close>: it was
  posted if the channel was ready and queued if not.\<close>

definition sends :: "chan \<Rightarrow> chan \<Rightarrow> out_msg \<Rightarrow> bool" where
  "sends ch ch' msg \<longleftrightarrow>
     (if ready ch then posted ch' = posted ch @ [msg] \<and> pendingQueue ch' = pendingQueue ch
      else pendingQueue ch' = pendingQueue ch @ [msg] \<and> posted ch' = posted ch)"

text \<open>
  \<^verbatim>\<open>call(m)\<close> on channel \<open>c\<close>, with the client's store \<open>h\<close>. The result is \<open>None\<close> only if
  the walk over the params did not finish within its bound (one more than the number of
  objects in the store); otherwise it is what was thrown, if anything, the store and the
  state afterwards. What \<^verbatim>\<open>JSON.stringify\<close> does with the message inside \<^verbatim>\<open>postMessage\<close>
  is not modelled.
\<close>

definition call ::
  "environment \<Rightarrow> nat \<Rightarrow> call_args option \<Rightarrow> js_heap \<Rightarrow> world
     \<Rightarrow> (jstree option \<times> js_heap \<times> world) option" where
  "call env c m h w =
     (case m of
        None \<Rightarrow> Some (Some (VStr ''missing arguments to call function''), h, w)
      | Some m \<Rightarrow>
          if \<not> truthy (c_method m) \<or> typeof (c_method m) \<noteq> TString then
            Some (Some (VStr (quoted ''method'' @ '' argument to call must be string'')), h, w)
          else if \<not> truthy (c_success m) \<or> typeof (c_success m) \<noteq> TFunction then
            Some (Some (VStr (quoted ''success'' @ '' callback missing from call'')), h, w)
          else
            (case pruneFunctions env (Suc (length h)) [] (c_params m) (prune_start h) of
               None \<Rightarrow> None
             | Some (Some e, st) \<Rightarrow> Some (Some e, objs st, w)
             | Some (None, st) \<Rightarrow>
                 (let i = s_curTranId w;
                      meth = scopeMethod (cfg_scope (chans w c)) (str_of (c_method m));
                      msg = Request i meth (c_params m)
                              (if callbackNames st \<noteq> [] then Some (callbackNames st) else None);
                      w1 = (case c_timeout m of
                              Some t \<Rightarrow> if t \<noteq> 0 then setTransactionTimeout c i t meth w else w
                            | None \<Rightarrow> w);
                      ch1 = (chans w1 c)\<lparr>outTbl := (outTbl (chans w1 c))
                               (i \<mapsto> \<lparr>e_callbacks = callbacks st, e_error = c_error m,
                                      e_success = c_success m\<rparr>)\<rparr>
                  in Some (None, objs st,
                       w1\<lparr>s_transIds := (s_transIds w1)(i \<mapsto> c),
                          s_curTranId := i + 1,
                          chans := (chans w1)(c := postMessage msg False ch1)\<rparr>))))"

definition notify :: "nat \<Rightarrow> notify_args option \<Rightarrow> world \<Rightarrow> string option \<times> world" where
  "notify c m w =
     (case m of
        None \<Rightarrow> (Some ''missing arguments to notify function'', w)
      | Some m \<Rightarrow>
          if \<not> truthy (n_method m) \<or> typeof (n_method m) \<noteq> TString then
            (Some (quoted ''method'' @ '' argument to notify must be string''), w)
          else
            (None, w\<lparr>chans := (chans w)(c := postMessage
               (Notification (scopeMethod (cfg_scope (chans w c)) (str_of (n_method m))) (n_params m))
               False (chans w c))\<rparr>))"

subsection \<open>Transactions\<close>

text \<open>
  The object \<^verbatim>\<open>createTransaction(id, origin, callbacks)\<close> returns: \<open>trans_state\<close> holds
  its two local variables, and each method is a function of the channel that returns
  what it threw, if anything.
\<close>

record trans_state =
  shouldDelayReturn :: bool
  completed :: bool

definition trans_invoke :: "int \<Rightarrow> string list \<Rightarrow> string \<Rightarrow> jstree \<Rightarrow> chan \<Rightarrow> jstree option \<times> chan" where
  "trans_invoke i cbs cbName v ch =
     (if i \<notin> inTbl ch then
        (Some (VStr (''attempting to invoke a callback of a nonexistent transaction: '' @ show_int i)), ch)
      else if cbName \<notin> set cbs then
        (Some (VStr (''request supports no such callback '' @ quoted cbName)), ch)
      else (None, postMessage (CallbackInvocation i cbName v) False ch))"

definition trans_error :: "int \<Rightarrow> jstree \<Rightarrow> jstree \<Rightarrow> chan \<Rightarrow> jstree option \<times> chan" where
  "trans_error i err msg ch =
     (if i \<notin> inTbl ch then
        (Some (VStr (''error called for nonexistent message: '' @ show_int i)), ch)
      else (None, postMessage (ErrorResponse i err msg) False (ch\<lparr>inTbl := inTbl ch - {i}\<rparr>)))"

definition trans_complete :: "int \<Rightarrow> jstree \<Rightarrow> chan \<Rightarrow> jstree option \<times> chan" where
  "trans_complete i v ch =
     (if i \<notin> inTbl ch then
        (Some (VStr (''complete called for nonexistent message: '' @ show_int i)), ch)
      else (None, postMessage (Response i v) False (ch\<lparr>inTbl := inTbl ch - {i}\<rparr>)))"

text \<open>One operation of a handler on its transaction, and a handler's operations in order
  up to the first that throws.\<close>

fun run_op :: "int \<Rightarrow> string list \<Rightarrow> trans_op \<Rightarrow> trans_state \<Rightarrow> chan \<Rightarrow> jstree option \<times> trans_state \<times> chan" where
  "run_op i cbs (Invoke cbName v) ts ch = (case trans_invoke i cbs cbName v ch of (e, ch') \<Rightarrow> (e, ts, ch'))"
| "run_op i cbs (TransError err msg) ts ch =
     (case trans_error i err msg ch of (e, ch') \<Rightarrow> (e, ts\<lparr>completed := True\<rparr>, ch'))"
| "run_op i cbs (Complete v) ts ch =
     (case trans_complete i v ch of (e, ch') \<Rightarrow> (e, ts\<lparr>completed := True\<rparr>, ch'))"
| "run_op i cbs (DelayReturn d) ts ch =
     (None, (case d of VBool b \<Rightarrow> ts\<lparr>shouldDelayReturn := b\<rparr> | _ \<Rightarrow> ts), ch)"

fun run_ops :: "int \<Rightarrow> string list \<Rightarrow> trans_op list \<Rightarrow> trans_state \<Rightarrow> chan \<Rightarrow> jstree option \<times> trans_state \<times> chan" where
  "run_ops i cbs [] ts ch = (None, ts, ch)"
| "run_ops i cbs (op # ops) ts ch =
     (case run_op i cbs op ts ch of
        (Some e, ts', ch') \<Rightarrow> (Some e, ts', ch')
      | (None, ts', ch') \<Rightarrow> run_ops i cbs ops ts' ch')"

subsection \<open>Callback functions inside the params of a request\<close>

text \<open>
  The inner loop and the assignment of \<^verbatim>\<open>onMessage\<close> for one callback path: walk the
  path items but the last, creating \<^verbatim>\<open>{}\<close> where the property is not an object, and
  store the function \<open>f\<close> under the last. Reading or writing a property of a value that
  is not an object throws a \<^verbatim>\<open>TypeError\<close> (the code is strict); \<^verbatim>\<open>split\<close> never returns
  the empty list. Setting an index of an array leaves its recorded length as it is. A
  path with the item \<^verbatim>\<open>__proto__\<close>, which leads into \<^verbatim>\<open>Object.prototype\<close>, is outside this
  model.
\<close>

fun set_callback :: "jstree \<Rightarrow> string list \<Rightarrow> jstree \<Rightarrow> jstree + jstree" where
  "set_callback f [] obj = Inr obj"
| "set_callback f [k] obj =
     (case obj of VObj c ps \<Rightarrow> Inr (VObj c (AList.update k f ps)) | _ \<Rightarrow> Inl type_error)"
| "set_callback f (cp # k # rest) obj =
     (case obj of
        VObj c ps \<Rightarrow>
          (let child = (case map_of ps cp of
                          Some v \<Rightarrow> if typeof_t v \<noteq> TObject then VObj PlainObject [] else v
                        | None \<Rightarrow> VObj PlainObject [])
           in (case set_callback f (k # rest) child of
                 Inl e \<Rightarrow> Inl e
               | Inr child' \<Rightarrow> Inr (VObj c (AList.update cp child' ps))))
      | _ \<Rightarrow> Inl type_error)"

text \<open>The loop over \<^verbatim>\<open>m.callbacks\<close>; \<open>cbs\<close> is the whole list, which the transaction keeps.\<close>

fun make_callbacks :: "int \<Rightarrow> string list \<Rightarrow> string list \<Rightarrow> jstree \<Rightarrow> jstree + jstree" where
  "make_callbacks i cbs [] params = Inr params"
| "make_callbacks i cbs (path # paths) params =
     (case set_callback (VFn (RemoteCallback i cbs path)) (split_slash path) params of
        Inl e \<Rightarrow> Inl e
      | Inr params' \<Rightarrow> make_callbacks i cbs paths params')"

text \<open>A call of the function created for a callback path: \<^verbatim>\<open>return trans.invoke(cbName, params)\<close>.
  A client function does nothing to the channel.\<close>

fun invoke_remote_callback :: "fnval \<Rightarrow> jstree \<Rightarrow> chan \<Rightarrow> jstree option \<times> chan" where
  "invoke_remote_callback (RemoteCallback i cbs cbName) v ch = trans_invoke i cbs cbName v ch"
| "invoke_remote_callback (ClientFn n) v ch = (None, ch)"

subsection \<open>What a handler threw, as an error and a message\<close>

text \<open>
  The \<^verbatim>\<open>catch\<close> block of the request branch up to the call of \<^verbatim>\<open>trans.error\<close>. The first
  part sets \<^verbatim>\<open>error\<close> and \<^verbatim>\<open>message\<close> and may replace \<^verbatim>\<open>e\<close>; \<open>Inl\<close> is what the block
  itself throws.
\<close>

definition classify_exception :: "jstree \<Rightarrow> jstree + (jstree \<times> jstree \<times> jstree)" where
  "classify_exception e =
     (if typeof_t e = TString then Inr (VStr ''runtime_error'', e, e)
      else if typeof_t e = TObject then
        (case e of
           VObj (ErrorObject cname) ps \<Rightarrow>
             Inr (VStr cname, (case map_of ps ''message'' of Some v \<Rightarrow> v | None \<Rightarrow> VUndef), e)
         | VObj c ps \<Rightarrow>
             (if (case c of ArrayObject n \<Rightarrow> n = 2 | _ \<Rightarrow> False) then
                Inr ((case map_of ps ''0'' of Some v \<Rightarrow> v | None \<Rightarrow> VUndef),
                     (case map_of ps ''1'' of Some v \<Rightarrow> v | None \<Rightarrow> VUndef), e)
              else (case map_of ps ''error'' of
                      Some (VStr err) \<Rightarrow>
                        (let msg = (case map_of ps ''message'' of Some v \<Rightarrow> v | None \<Rightarrow> VUndef)
                         in if \<not> truthy_t msg then Inr (VStr err, VStr [], e)
                            else if typeof_t msg = TString then Inr (VStr err, msg, e)
                            else Inr (VStr err, VNull, msg))
                    | _ \<Rightarrow> Inr (VStr ''runtime_error'', VNull, e)))
         | _ \<Rightarrow> Inl type_error)
      else Inr (VStr ''runtime_error'', VNull, e))"

text \<open>\<^verbatim>\<open>e.toString()\<close>: a \<^verbatim>\<open>TypeError\<close> on \<^verbatim>\<open>null\<close> and \<^verbatim>\<open>undefined\<close>.\<close>

definition js_toString :: "environment \<Rightarrow> jstree \<Rightarrow> outcome" where
  "js_toString env e = (if e = VNull \<or> e = VUndef then Throws type_error else to_string env e)"

text \<open>The part under \<^verbatim>\<open>if (message === null)\<close>.\<close>

definition render_exception :: "environment \<Rightarrow> jstree \<Rightarrow> jstree + jstree" where
  "render_exception env e =
     (case json_stringify env e of
        Returns m \<Rightarrow>
          if typeof_t m = TUndefined then
            (case js_toString env e of Returns s \<Rightarrow> Inr s | Throws x \<Rightarrow> Inl x)
          else Inr m
      | Throws e2 \<Rightarrow> (case js_toString env e of Returns s \<Rightarrow> Inr s | Throws x \<Rightarrow> Inl x))"

definition normalize_exception :: "environment \<Rightarrow> jstree \<Rightarrow> jstree + (jstree \<times> jstree)" where
  "normalize_exception env e =
     (case classify_exception e of
        Inl x \<Rightarrow> Inl x
      | Inr (err, msg, e') \<Rightarrow>
          if msg = VNull then
            (case render_exception env e' of Inl x \<Rightarrow> Inl x | Inr m \<Rightarrow> Inr (err, m))
          else Inr (err, msg))"

subsection \<open>onMessage\<close>

text \<open>
  A call of a client value \<open>f\<close> with \<open>args\<close>: the call is logged as \<open>ev\<close> and ends as the
  client function does; calling a value that is not a function throws a \<^verbatim>\<open>TypeError\<close>.
\<close>

definition call_client :: "environment \<Rightarrow> event \<Rightarrow> jsval \<Rightarrow> jstree list \<Rightarrow> world \<Rightarrow> outcome \<times> world" where
  "call_client env ev f args w =
     (case f of
        Fn n \<Rightarrow> (snd (client_fn env n args), w\<lparr>log := log w @ [ev]\<rparr>)
      | _ \<Rightarrow> (Throws type_error, w))"

text \<open>
  \<^verbatim>\<open>regTbl[method]\<close>, when it is not \<^verbatim>\<open>undefined\<close>: a handler that the client bound, or what
  \<^verbatim>\<open>regTbl\<close> inherits under that name. A call of it with \<open>args\<close>: an inherited function
  cannot use the transaction, and \<^verbatim>\<open>Object.prototype\<close> is no function. Only the call of
  a handler of the client goes to the log.
\<close>

datatype callee = Bound nat | Unbound inherited

definition lookup_handler :: "(string \<rightharpoonup> nat) \<Rightarrow> string \<Rightarrow> callee option" where
  "lookup_handler tbl method =
     (case tbl method of
        Some h \<Rightarrow> Some (Bound h)
      | None \<Rightarrow> (case object_prototype method of Some p \<Rightarrow> Some (Unbound p) | None \<Rightarrow> None))"

definition call_handler :: "environment \<Rightarrow> callee \<Rightarrow> string \<Rightarrow> jstree list \<Rightarrow> trans_op list \<times> outcome" where
  "call_handler env f method args =
     (case f of
        Bound h \<Rightarrow> client_fn env h args
      | Unbound (InheritedFunction n) \<Rightarrow> ([], builtin env method args)
      | Unbound InheritedObject \<Rightarrow> ([], Throws type_error))"

definition handler_events :: "callee \<Rightarrow> string \<Rightarrow> jstree list \<Rightarrow> event list" where
  "handler_events f method args = (case f of Bound h \<Rightarrow> [HandlerCalled method args] | Unbound p \<Rightarrow> [])"

text \<open>
  The \<^verbatim>\<open>try\<close> block of the request branch for what \<^verbatim>\<open>regTbl[method]\<close> is: the callback
  functions are created inside the params, the handler runs, and its return value
  completes the transaction unless the handler delayed or completed it. The result is
  what the block threw, if anything, the channel, and the call of the handler for the log.
\<close>

definition run_handler ::
  "environment \<Rightarrow> callee \<Rightarrow> string \<Rightarrow> string \<Rightarrow> message \<Rightarrow> int \<Rightarrow> string list \<Rightarrow> chan
     \<Rightarrow> jstree option \<times> chan \<times> event list" where
  "run_handler env h origin method m i cbs ch =
     (case (if cbs \<noteq> [] then make_callbacks i cbs cbs (m_params m) else Inr (m_params m)) of
        Inl e \<Rightarrow> (Some e, ch, [])
      | Inr params \<Rightarrow>
          (let args = [VObj PlainObject [(''origin'', VStr origin)], params];
               evs = handler_events h method args
           in (case call_handler env h method args of
                 (ops, out) \<Rightarrow>
                   (case run_ops i cbs ops \<lparr>shouldDelayReturn = False, completed = False\<rparr> ch of
                      (Some e, ts, ch') \<Rightarrow> (Some e, ch', evs)
                    | (None, ts, ch') \<Rightarrow>
                        (case out of
                           Throws e \<Rightarrow> (Some e, ch', evs)
                         | Returns resp \<Rightarrow>
                             if \<not> shouldDelayReturn ts \<and> \<not> completed ts then
                               (case trans_complete i resp ch' of (e, ch'') \<Rightarrow> (e, ch'', evs))
                             else (None, ch', evs))))))"

text \<open>The request branch: \<^verbatim>\<open>m.id\<close> is \<open>i\<close>, and \<open>method\<close> is the unscoped method name.\<close>

definition handle_request ::
  "environment \<Rightarrow> string \<Rightarrow> string \<Rightarrow> message \<Rightarrow> int \<Rightarrow> chan \<Rightarrow> jstree option \<times> chan \<times> event list" where
  "handle_request env origin method m i ch =
     (let ch0 = ch\<lparr>inTbl := insert i (inTbl ch)\<rparr>;
          cbs = (case m_callbacks m of Some l \<Rightarrow> l | None \<Rightarrow> [])
      in (case lookup_handler (regTbl ch0) method of
            Some h \<Rightarrow>
              (case run_handler env h origin method m i cbs ch0 of
                 (None, ch1, evs) \<Rightarrow> (None, ch1, evs)
               | (Some e, ch1, evs) \<Rightarrow>
                   (case normalize_exception env e of
                      Inl x \<Rightarrow> (Some x, ch1, evs)
                    | Inr (err, msg) \<Rightarrow>
                        (case trans_error i err msg ch1 of (x, ch2) \<Rightarrow> (x, ch2, evs))))
          | None \<Rightarrow>
              (case trans_error i (VStr ''method_not_found'')
                      (VStr (''No method '' @ quoted method @ '' was (yet) bound by the provider'')) ch0 of
                 (x, ch1) \<Rightarrow> (x, ch1, []))))"

text \<open>\<^verbatim>\<open>m.id\<close> as a number, \<open>0\<close> (which is falsy, like the absent id) when there is none.\<close>

definition id_of :: "message \<Rightarrow> int" where
  "id_of m = (case m_id m of Some i \<Rightarrow> i | None \<Rightarrow> 0)"

definition evict :: "nat \<Rightarrow> int \<Rightarrow> world \<Rightarrow> world" where
  "evict c i w =
     w\<lparr>chans := (chans w)(c := (chans w c)\<lparr>outTbl := (outTbl (chans w c))(i := None)\<rparr>),
       s_transIds := (s_transIds w)(i := None)\<rparr>"

text \<open>
  \<^verbatim>\<open>onMessage(origin, method, m)\<close> of channel \<open>c\<close>. The result is the exception that left
  the function, if any, and the state.
\<close>

definition onMessage :: "environment \<Rightarrow> nat \<Rightarrow> string \<Rightarrow> string option \<Rightarrow> message \<Rightarrow> world \<Rightarrow> jstree option \<times> world" where
  "onMessage env c origin method m w =
     (let i = id_of m;
          meth = (case method of Some s \<Rightarrow> s | None \<Rightarrow> []);
          cb = (case m_callback m of Some s \<Rightarrow> s | None \<Rightarrow> []);
          err = (case m_error m of Some s \<Rightarrow> s | None \<Rightarrow> [])
      in if i \<noteq> 0 \<and> meth \<noteq> [] then
           (case handle_request env origin meth m i (chans w c) of
              (x, ch', evs) \<Rightarrow> (x, w\<lparr>chans := (chans w)(c := ch'), log := log w @ evs\<rparr>))
         else if i \<noteq> 0 \<and> cb \<noteq> [] then
           (case outTbl (chans w c) i of
              None \<Rightarrow> (None, w)
            | Some e \<Rightarrow>
                (case map_of (e_callbacks e) cb of
                   None \<Rightarrow>
                     (case object_prototype cb of
                        None \<Rightarrow> (None, w)
                      | Some (InheritedFunction n) \<Rightarrow>
                          (case builtin env cb [m_params m] of
                             Throws x \<Rightarrow> (Some x, w)
                           | Returns v \<Rightarrow> (None, w))
                      | Some InheritedObject \<Rightarrow> (Some type_error, w))
                 | Some f \<Rightarrow>
                     if \<not> truthy f then (None, w)
                     else (case call_client env (CallbackCalled i cb [m_params m]) f [m_params m] w of
                             (Throws x, w') \<Rightarrow> (Some x, w')
                           | (Returns v, w') \<Rightarrow> (None, w'))))
         else if i \<noteq> 0 then
           (case outTbl (chans w c) i of
              None \<Rightarrow> (None, w)
            | Some e \<Rightarrow>
                (case (if err \<noteq> [] then
                         (if truthy (e_error e) then
                            call_client env (ErrorCalled i [VStr err, m_message m])
                              (e_error e) [VStr err, m_message m] w
                          else (Returns VUndef, w))
                       else if m_result m \<noteq> VUndef then
                         call_client env (SuccessCalled i [m_result m]) (e_success e) [m_result m] w
                       else call_client env (SuccessCalled i []) (e_success e) [] w) of
                   (Throws x, w') \<Rightarrow> (Some x, w')
                 | (Returns v, w') \<Rightarrow> (None, evict c i w')))
         else if meth \<noteq> [] then
           (case lookup_handler (regTbl (chans w c)) meth of
              None \<Rightarrow> (None, w)
            | Some h \<Rightarrow>
                (let args = [VObj PlainObject [(''origin'', VStr origin)], m_params m];
                     w' = w\<lparr>log := log w @ handler_events h meth args\<rparr>
                 in (case call_handler env h meth args of
                       ([], Returns v) \<Rightarrow> (None, w')
                     | ([], Throws x) \<Rightarrow> (Some x, w')
                     | (op # ops, out) \<Rightarrow> (Some type_error, w'))))
         else (None, w))"

subsection \<open>The timer of a call\<close>

definition timeout_message :: "int \<Rightarrow> string \<Rightarrow> string" where
  "timeout_message timeout method =
     ''timeout ('' @ show_int timeout @ ''ms) exceeded on method '' @ quoted method"

text \<open>The function that \<^verbatim>\<open>setTransactionTimeout\<close> hands to \<^verbatim>\<open>window.setTimeout\<close>, when it runs.\<close>

definition timer_fires :: "environment \<Rightarrow> timer \<Rightarrow> world \<Rightarrow> jstree option \<times> world" where
  "timer_fires env t w =
     (case outTbl (chans w (t_chan t)) (t_transId t) of
        None \<Rightarrow> (None, w)
      | Some e \<Rightarrow>
          (let args = [VStr ''timeout_error'', VStr (timeout_message (t_timeout t) (t_method t))]
           in (case (if truthy (e_error e) then
                       call_client env (ErrorCalled (t_transId t) args) (e_error e) args w
                     else (Returns VUndef, w)) of
                 (Throws x, w') \<Rightarrow> (Some x, w')
               | (Returns v, w') \<Rightarrow> (None, evict (t_chan t) (t_transId t) w'))))"

subsection \<open>The listener of the page\<close>

text \<open>
  A \<^verbatim>\<open>message\<close> event: \<open>e_data\<close> is the parsed \<^verbatim>\<open>e.data\<close>, \<open>None\<close> when it is not JSON or
  not an object.
\<close>

record message_event =
  e_data :: "message option"
  e_source :: nat
  e_origin :: string

fun find_win :: "nat \<Rightarrow> bound_chan list \<Rightarrow> nat option" where
  "find_win w [] = None"
| "find_win w (e # arr) = (if win e = w then Some (handler e) else find_win w arr)"

text \<open>
  The loop over \<^verbatim>\<open>s_boundChans[o][s]\<close>, when that is not \<^verbatim>\<open>undefined\<close>: the channel of the
  first entry with the window, if there is one. On an inherited function whose \<^verbatim>\<open>length\<close>
  is not \<open>0\<close> the loop reads \<^verbatim>\<open>win\<close> of \<^verbatim>\<open>undefined\<close>, a \<^verbatim>\<open>TypeError\<close>.
\<close>

definition bound_handler :: "bound_chans \<Rightarrow> string \<Rightarrow> string \<Rightarrow> nat \<Rightarrow> jstree + nat option" where
  "bound_handler reg origin scope w =
     (case slot_at reg origin scope of
        Chans arr \<Rightarrow> Inr (find_win w arr)
      | Proto (InheritedFunction n) \<Rightarrow> if n = 0 then Inr None else Inl type_error
      | Proto InheritedObject \<Rightarrow> Inr None
      | Missing \<Rightarrow> Inr None)"

definition s_onMessage :: "environment \<Rightarrow> message_event \<Rightarrow> world \<Rightarrow> jstree option \<times> world" where
  "s_onMessage env e w =
     (case e_data e of
        None \<Rightarrow> (None, w)
      | Some m \<Rightarrow>
          (let ar = (case m_method m of Some s \<Rightarrow> split_colons s | None \<Rightarrow> []);
               s = (if length ar = 2 then ar ! 0 else ''undefined'');
               meth = (case m_method m of
                         Some x \<Rightarrow> Some (if length ar = 2 then ar ! 1 else x)
                       | None \<Rightarrow> None)
           in (case meth of
                 Some me \<Rightarrow>
                   (case bound_handler (s_boundChans w) (e_origin e) s (e_source e) of
                      Inl x \<Rightarrow> (Some x, w)
                    | Inr (Some c) \<Rightarrow> onMessage env c (e_origin e) meth m w
                    | Inr None \<Rightarrow>
                        (case bound_handler (s_boundChans w) ''*'' s (e_source e) of
                           Inl x \<Rightarrow> (Some x, w)
                         | Inr (Some c) \<Rightarrow> onMessage env c (e_origin e) meth m w
                         | Inr None \<Rightarrow> (None, w)))
               | None \<Rightarrow>
                   (case m_id m of
                      None \<Rightarrow> (None, w)
                    | Some i \<Rightarrow>
                        (case s_transIds w i of
                           Some c \<Rightarrow> onMessage env c (e_origin e) None m w
                         | None \<Rightarrow> (None, w))))))"

subsection \<open>What happens on a page, one action after the other\<close>

datatype action =
    DoCall nat "call_args option" js_heap
  | DoNotify nat "notify_args option"
  | Deliver message_event
  | Expire timer

text \<open>An exception that leaves a listener or a timer function goes to the page, not to the
  library; a timer runs once.\<close>

fun step :: "environment \<Rightarrow> action \<Rightarrow> world \<Rightarrow> world" where
  "step env (DoCall c m h) w = (case call env c m h w of Some (x, h', w') \<Rightarrow> w' | None \<Rightarrow> w)"
| "step env (DoNotify c m) w = snd (notify c m w)"
| "step env (Deliver e) w = snd (s_onMessage env e w)"
| "step env (Expire t) w =
     (if t \<in> set (timers w) then snd (timer_fires env t (w\<lparr>timers := remove1 t (timers w)\<rparr>)) else w)"

fun run :: "environment \<Rightarrow> action list \<Rightarrow> world \<Rightarrow> world" where
  "run env [] w = w"
| "run env (a # as) w = run env as (step env a w)"

text \<open>The variables of a channel as \<^verbatim>\<open>build\<close> declares them, and a page on which nothing has
  happened yet.\<close>

definition new_chan :: "string \<Rightarrow> chan" where
  "new_chan scope = \<lparr>cfg_scope = scope, regTbl = Map.empty, outTbl = Map.empty, inTbl = {},
     ready = False, pendingQueue = [], posted = []\<rparr>"

definition new_world :: "int \<Rightarrow> string \<Rightarrow> world" where
  "new_world seed scope = \<lparr>s_curTranId = seed, s_transIds = Map.empty, s_boundChans = [],
     chans = (\<lambda>c. new_chan scope), timers = [], log = []\<rparr>"

subsection \<open>Resolved transactions\<close>

text \<open>An event of the log resolves the transaction \<open>i\<close> when it is a call of the success or of
  the error callback that \<^verbatim>\<open>call\<close> stored under the id \<open>i\<close>.\<close>

fun resolves :: "int \<Rightarrow> event \<Rightarrow> bool" where
  "resolves i (SuccessCalled j args) = (j = i)"
| "resolves i (ErrorCalled j args) = (j = i)"
| "resolves i (CallbackCalled j p args) = False"
| "resolves i (HandlerCalled m args) = False"

definition resolutions :: "int \<Rightarrow> event list \<Rightarrow> nat" where
  "resolutions i evs = length (filter (resolves i) evs)"

text \<open>A callback that is a function returns normally when no call of it throws. A call whose
  two callbacks return normally is polite.\<close>

definition returns_normally :: "environment \<Rightarrow> jsval \<Rightarrow> bool" where
  "returns_normally env f \<longleftrightarrow> (\<forall>n args. f = Fn n \<longrightarrow> (\<exists>v. snd (client_fn env n args) = Returns v))"

fun polite :: "environment \<Rightarrow> action \<Rightarrow> bool" where
  "polite env (DoCall c (Some m) h) = (returns_normally env (c_success m) \<and> returns_normally env (c_error m))"
| "polite env a = True"

text \<open>The invariant of the page: an id in an outbound table is below the counter, unresolved so
  far, held by one channel only, and its callbacks return normally; no id is resolved twice,
  and a resolved id is below the counter.\<close>

definition consistent :: "environment \<Rightarrow> world \<Rightarrow> bool" where
  "consistent env w \<longleftrightarrow>
     (\<forall>c i e. outTbl (chans w c) i = Some e \<longrightarrow>
        i < s_curTranId w \<and> resolutions i (log w) = 0 \<and>
        returns_normally env (e_success e) \<and> returns_normally env (e_error e) \<and>
        (\<forall>c'. outTbl (chans w c') i \<noteq> None \<longrightarrow> c' = c)) \<and>
     (\<forall>i. resolutions i (log w) \<le> 1) \<and>
     (\<forall>i. 0 < resolutions i (log w) \<longrightarrow> i < s_curTranId w)"

text \<open>Two effects of a step on the tables and the log: nothing is resolved and no table
  changes (\<open>quiet\<close>), or the entry \<open>i\<close> of the channel \<open>c\<close> is deleted and at most one callback of
  it is called (\<open>resolved\<close>).\<close>

definition quiet :: "world \<Rightarrow> world \<Rightarrow> bool" where
  "quiet w w' \<longleftrightarrow>
     s_curTranId w' = s_curTranId w \<and> (\<forall>c. outTbl (chans w' c) = outTbl (chans w c)) \<and>
     (\<exists>evs. log w' = log w @ evs \<and> (\<forall>i. resolutions i evs = 0))"

definition resolved :: "nat \<Rightarrow> int \<Rightarrow> world \<Rightarrow> world \<Rightarrow> bool" where
  "resolved c i w w' \<longleftrightarrow>
     s_curTranId w' = s_curTranId w \<and> outTbl (chans w c) i \<noteq> None \<and>
     (\<forall>c' j. outTbl (chans w' c') j = (if c' = c \<and> j = i then None else outTbl (chans w c') j)) \<and>
     (\<exists>evs. log w' = log w @ evs \<and> resolutions i evs \<le> 1 \<and> (\<forall>j. j \<noteq> i \<longrightarrow> resolutions j evs = 0))"

section \<open>Properties\<close>

declare show_nat.simps [simp del]

subsection \<open>The registry\<close>

lemma hasWin_iff: "hasWin w arr \<longleftrightarrow> w \<in> win ` set arr"
  by (induction arr) auto

lemma wins_key: "w \<in> set (wins reg k scope) \<Longrightarrow> k \<in> set (map fst reg)"
proof -
  assume "w \<in> set (wins reg k scope)"
  then have "map_of reg k \<noteq> None"
    by (auto simp: wins_def slot_at_def split: option.splits)
  then show ?thesis
    by (simp add: map_of_eq_None_iff)
qed

lemma other_origins_iff:
  "other_origins w scope reg ks \<longleftrightarrow> (\<exists>k \<in> set ks. k \<noteq> ''*'' \<and> w \<in> set (wins reg k scope))"
  by (induction ks) (auto simp: wins_def hasWin_iff split: slot.splits)

lemma wins_Chans:
  assumes "w \<in> set (wins reg k scope)"
  obtains arr where "slot_at reg k scope = Chans arr" "hasWin w arr"
  using assms by (cases "slot_at reg k scope") (auto simp: wins_def hasWin_iff)

lemma wildcard_blocks_concrete:
  assumes "origin \<noteq> ''*''" "w \<in> set (wins reg ''*'' scope)"
  shows "s_addBoundChan w origin scope h reg = (Some AlreadyBound, reg)"
proof -
  from assms(2) obtain arr where "slot_at reg ''*'' scope = Chans arr" "hasWin w arr"
    by (rule wins_Chans)
  with assms(1) show ?thesis
    by (simp add: s_addBoundChan_def overlaps_def)
qed

lemma concrete_blocks_wildcard:
  assumes "origin \<noteq> ''*''" "w \<in> set (wins reg origin scope)"
  shows "s_addBoundChan w ''*'' scope h reg = (Some AlreadyBound, reg)"
proof -
  from assms(2) have "origin \<in> set (map fst reg)" by (rule wins_key)
  with assms have "other_origins w scope reg (map fst reg)"
    unfolding other_origins_iff by blast
  then show ?thesis
    by (simp add: s_addBoundChan_def overlaps_def)
qed

lemma concrete_blocks_itself:
  assumes "origin \<noteq> ''*''" "w \<in> set (wins reg origin scope)"
  shows "\<exists>e. s_addBoundChan w origin scope h reg = (Some e, reg)"
proof -
  from assms(2) obtain arr where "slot_at reg origin scope = Chans arr" "hasWin w arr"
    by (rule wins_Chans)
  with assms(1) show ?thesis
    by (cases "hasWin_at w (slot_at reg ''*'' scope)") (auto simp: s_addBoundChan_def overlaps_def)
qed

lemma add_result:
  assumes "s_addBoundChan w origin scope h reg = (None, reg')"
  shows "reg' = AList.update origin
           (AList.update scope
              ((case map_of (case map_of reg origin of Some t \<Rightarrow> t | None \<Rightarrow> []) scope of
                  Some a \<Rightarrow> a | None \<Rightarrow> []) @ [\<lparr>win = w, handler = h\<rparr>])
              (case map_of reg origin of Some t \<Rightarrow> t | None \<Rightarrow> [])) reg"
proof (cases "overlaps w origin scope reg")
  case (Inl e)
  with assms show ?thesis by (simp add: s_addBoundChan_def)
next
  case (Inr ex)
  show ?thesis
  proof (cases "map_of (case map_of reg origin of Some t \<Rightarrow> t | None \<Rightarrow> []) scope")
    case None
    with assms Inr show ?thesis
      by (simp add: s_addBoundChan_def Let_def split: if_splits)
  next
    case (Some arr)
    with assms Inr show ?thesis
      by (simp add: s_addBoundChan_def Let_def split: if_splits)
  qed
qed

lemma slot_at_update:
  "slot_at (AList.update origin (AList.update scope arr tbl) reg) k sc =
     (if k = origin then (if sc = scope then Chans arr
                          else (case map_of tbl sc of
                                  Some a \<Rightarrow> Chans a
                                | None \<Rightarrow> (case object_prototype sc of Some p \<Rightarrow> Proto p | None \<Rightarrow> Missing)))
      else slot_at reg k sc)"
  by (simp add: slot_at_def update_conv')

lemma wins_add:
  assumes "s_addBoundChan w origin scope h reg = (None, reg')"
  shows "wins reg' k sc = (if k = origin \<and> sc = scope then wins reg origin scope @ [w] else wins reg k sc)"
proof -
  let ?tbl = "case map_of reg origin of Some t \<Rightarrow> t | None \<Rightarrow> []"
  have old: "wins reg origin scope = map win (case map_of ?tbl scope of Some a \<Rightarrow> a | None \<Rightarrow> [])"
    by (simp add: wins_def slot_at_def split: option.splits)
  have other: "sc \<noteq> scope \<Longrightarrow> wins reg origin sc =
      (case (case map_of ?tbl sc of
                                  Some a \<Rightarrow> Chans a
                                | None \<Rightarrow> (case object_prototype sc of Some p \<Rightarrow> Proto p | None \<Rightarrow> Missing)) of
         Chans arr \<Rightarrow> map win arr | Proto p \<Rightarrow> [] | Missing \<Rightarrow> [])"
    by (simp add: wins_def slot_at_def split: option.splits)
  show ?thesis
    unfolding add_result[OF assms]
    by (simp add: wins_def[of "AList.update _ _ _"] slot_at_update old other) (simp add: wins_def)
qed

lemma add_succeeds:
  assumes "object_prototype scope = None" "origin \<noteq> ''*''"
    and "w \<notin> set (wins reg ''*'' scope)" "w \<notin> set (wins reg origin scope)"
  shows "\<exists>reg'. s_addBoundChan w origin scope h reg = (None, reg')"
  using assms
  by (auto simp: s_addBoundChan_def overlaps_def wins_def slot_at_def hasWin_iff Let_def
      split: option.splits)

lemma different_origins_coexist:
  assumes "object_prototype scope = None" "a \<noteq> ''*''" "b \<noteq> ''*''" "a \<noteq> b"
    and "w \<notin> set (wins reg ''*'' scope)" "w \<notin> set (wins reg a scope)" "w \<notin> set (wins reg b scope)"
  shows "\<exists>r1 r2. s_addBoundChan w a scope h reg = (None, r1) \<and> s_addBoundChan w b scope h' r1 = (None, r2)
           \<and> w \<in> set (wins r2 a scope) \<and> w \<in> set (wins r2 b scope)"
proof -
  from add_succeeds[OF assms(1,2,5,6)] obtain r1 where r1: "s_addBoundChan w a scope h reg = (None, r1)"
    by blast
  from assms have "w \<notin> set (wins r1 ''*'' scope)" "w \<notin> set (wins r1 b scope)"
    by (auto simp: wins_add[OF r1])
  from add_succeeds[OF assms(1,3) this] obtain r2 where r2: "s_addBoundChan w b scope h' r1 = (None, r2)"
    by blast
  from assms have "w \<in> set (wins r2 a scope)" "w \<in> set (wins r2 b scope)"
    by (auto simp: wins_add[OF r2] wins_add[OF r1])
  with r1 r2 show ?thesis by blast
qed

text \<open>
  C7: two channels of one window and one scope whose origins overlap cannot both be
  registered. The branch for a concrete origin looks at the entries under \<^verbatim>\<open>'*'\<close> and at the
  entries under the origin itself, but the loop of the branch for \<^verbatim>\<open>'*'\<close> skips the key
  \<^verbatim>\<open>'*'\<close>: a second channel with the origin \<^verbatim>\<open>'*'\<close>, the same window and the same scope is
  registered beside the first, where a second channel with the same concrete origin is
  refused.
\<close>

theorem wildcard_registered_twice:
  "s_addBoundChan 1 ''*'' ''s'' 1 [] = (None, [(''*'', [(''s'', [\<lparr>win = 1, handler = 1\<rparr>])])]) \<and>
   s_addBoundChan 1 ''*'' ''s'' 2 [(''*'', [(''s'', [\<lparr>win = 1, handler = 1\<rparr>])])]
     = (None, [(''*'', [(''s'', [\<lparr>win = 1, handler = 1\<rparr>, \<lparr>win = 1, handler = 2\<rparr>])])]) \<and>
   s_addBoundChan 1 ''https://a.example'' ''s'' 2 [(''https://a.example'', [(''s'', [\<lparr>win = 1, handler = 1\<rparr>])])]
     = (Some AlreadyBound, [(''https://a.example'', [(''s'', [\<lparr>win = 1, handler = 1\<rparr>])])])"
  by (simp add: s_addBoundChan_def overlaps_def slot_at_def object_prototype_def)

text \<open>
  A scope that is the name of an inherited property: under \<^verbatim>\<open>__proto__\<close> nothing can be
  registered, and under \<^verbatim>\<open>constructor\<close> a concrete origin can be registered only while no
  channel has the origin \<^verbatim>\<open>'*'\<close>.
\<close>

lemma inherited_scope_names:
  "s_addBoundChan 1 ''https://a.example'' ''__proto__'' 1 [] = (Some RegistryTypeError, [(''https://a.example'', [])])"
  "s_addBoundChan 1 ''https://a.example'' ''constructor'' 1 [(''*'', [(''s'', [\<lparr>win = 2, handler = 1\<rparr>])])]
     = (Some RegistryTypeError, [(''*'', [(''s'', [\<lparr>win = 2, handler = 1\<rparr>])])])"
  "s_addBoundChan 1 ''https://a.example'' ''constructor'' 1 []
     = (None, [(''https://a.example'', [(''constructor'', [\<lparr>win = 1, handler = 1\<rparr>])])])"
  by (simp_all add: s_addBoundChan_def overlaps_def slot_at_def object_prototype_def)

subsection \<open>The walk over the params\<close>

lemma prune_induct [case_names zero suc nil cons]:
  assumes zero: "\<And>path obj st. P 0 path obj st"
    and suc: "\<And>n path obj st. (\<And>p a ks st1. Q n p a ks st1) \<Longrightarrow> P (Suc n) path obj st"
    and nil: "\<And>n path a st. Q n path a [] st"
    and cons: "\<And>n path a k ks st.
        (\<And>st1. Q n path a ks st1) \<Longrightarrow> (\<And>np v st1. P n np v st1) \<Longrightarrow> Q n path a (k # ks) st"
  shows "P n path obj st" and "Q n path a ks st"
proof -
  have keys: "Q n path a ks st" if "\<And>np v st1. P n np v st1" for n path a ks st
    using that by (induction ks arbitrary: st) (auto intro: nil cons)
  have "\<forall>path obj st. P n path obj st"
  proof (induction n)
    case 0
    show ?case by (simp add: zero)
  next
    case (Suc n)
    then have "Q n p a ks st1" for p a ks st1
      by (intro keys) simp
    then show ?case by (simp add: suc)
  qed
  then have all: "\<And>path obj st. P n path obj st" by simp
  show "P n path obj st" by (rule all)
  show "Q n path a ks st" by (rule keys) (rule all)
qed

lemma shrinks_refl: "shrinks h h"
  by (simp add: shrinks_def)

lemma shrinksD:
  assumes "shrinks h h'"
  shows "length h' = length h"
    and "map_of (props h' b) k = Some v \<Longrightarrow> map_of (props h b) k = Some v"
    and "map_of (props h b) k = Some v \<Longrightarrow> typeof v \<noteq> TFunction \<Longrightarrow> map_of (props h' b) k = Some v"
  using assms unfolding shrinks_def by blast+

lemma shrinksI:
  assumes "length h' = length h"
    and "\<And>b k v. map_of (props h' b) k = Some v \<Longrightarrow> map_of (props h b) k = Some v"
    and "\<And>b k v. map_of (props h b) k = Some v \<Longrightarrow> typeof v \<noteq> TFunction \<Longrightarrow> map_of (props h' b) k = Some v"
  shows "shrinks h h'"
  unfolding shrinks_def using assms by blast

lemma shrinks_trans:
  assumes "shrinks h1 h2" "shrinks h2 h3"
  shows "shrinks h1 h3"
proof (rule shrinksI)
  show "length h3 = length h1"
    using shrinksD(1)[OF assms(1)] shrinksD(1)[OF assms(2)] by simp
next
  fix b k v assume "map_of (props h3 b) k = Some v"
  then show "map_of (props h1 b) k = Some v"
    by (intro shrinksD(2)[OF assms(1)] shrinksD(2)[OF assms(2)])
next
  fix b k v assume "map_of (props h1 b) k = Some v" "typeof v \<noteq> TFunction"
  then show "map_of (props h3 b) k = Some v"
    by (intro shrinksD(3)[OF assms(2)] shrinksD(3)[OF assms(1)])
qed

lemma grows_refl: "grows st st"
  by (simp add: grows_def shrinks_refl)

lemma grows_trans: "grows s1 s2 \<Longrightarrow> grows s2 s3 \<Longrightarrow> grows s1 s3"
  unfolding grows_def using shrinks_trans by blast

lemma props_update:
  "props (h[a := ps]) b = (if b = a \<and> a < length h then ps else props h b)"
  by (simp add: props_def)

lemma shrinks_delete:
  assumes "map_of (props h a) k = Some v" "typeof v = TFunction"
  shows "shrinks h (h[a := AList.delete k (props h a)])"
proof (rule shrinksI)
  show "length (h[a := AList.delete k (props h a)]) = length h"
    by simp
next
  fix b k' w assume "map_of (props (h[a := AList.delete k (props h a)]) b) k' = Some w"
  then show "map_of (props h b) k' = Some w"
    by (simp add: props_update delete_conv' split: if_splits)
next
  fix b k' w assume "map_of (props h b) k' = Some w" "typeof w \<noteq> TFunction"
  with assms show "map_of (props (h[a := AList.delete k (props h a)]) b) k' = Some w"
    by (cases "b = a \<and> a < length h") (auto simp: props_update delete_conv')
qed

lemma grows_push: "grows st (st\<lparr>seen := seen st @ [obj]\<rparr>)"
  by (auto simp: grows_def shrinks_refl)

lemma grows_delete:
  assumes "map_of (props (objs st) a) k = Some v" "typeof v = TFunction"
  shows "grows st (st\<lparr>callbacks := cbs, callbackNames := callbackNames st @ [np],
                      objs := (objs st)[a := AList.delete k (props (objs st) a)]\<rparr>)"
  using shrinks_delete[OF assms] by (auto simp: grows_def)

lemma pruneFunctions_Suc_cases:
  assumes "pruneFunctions env (Suc n) path obj st = Some (r, st')"
  obtains (seen) "obj \<in> set (seen st)" "r = Some (VStr recursive_params)" "st' = st"
  | (object) a where "obj \<notin> set (seen st)" "obj = Ref a"
      "prune_keys env n path a (map fst (props (objs st) a)) (st\<lparr>seen := seen st @ [Ref a]\<rparr>) = Some (r, st')"
  | (other) "obj \<notin> set (seen st)" "\<forall>a. obj \<noteq> Ref a" "r = None"
      "st' = (if truthy obj then st\<lparr>seen := seen st @ [obj]\<rparr> else st)"
proof (cases "obj \<in> set (seen st)")
  case True
  with assms have "r = Some (VStr recursive_params)" "st' = st" by simp_all
  from seen[OF True this] show ?thesis .
next
  case False
  show ?thesis
  proof (cases "\<exists>a. obj = Ref a")
    case True
    then obtain a where a: "obj = Ref a" by blast
    with False assms
    have "prune_keys env n path a (map fst (props (objs st) a)) (st\<lparr>seen := seen st @ [Ref a]\<rparr>) = Some (r, st')"
      by simp
    from object[OF False a this] show ?thesis .
  next
    case nr: False
    from assms False nr have r: "r = None"
      by (cases obj) simp_all
    from assms False nr have "st' = (if truthy obj then st\<lparr>seen := seen st @ [obj]\<rparr> else st)"
      by (cases obj) (simp_all split: if_splits)
    from other[OF False _ r this] nr show ?thesis by blast
  qed
qed

lemma prune_keys_Cons_cases:
  assumes "prune_keys env n path a (k # ks) st = Some (r, st')"
  obtains (skip) "prune_keys env n path a ks st = Some (r, st')"
      "map_of (props (objs st) a) k = None
       \<or> (\<exists>own. hasOwnProperty env (props (objs st) a) k = Returns own \<and> \<not> truthy_t own)
       \<or> (\<exists>v. map_of (props (objs st) a) k = Some v \<and> typeof v \<noteq> TFunction \<and> typeof v \<noteq> TObject)"
  | (hop) v x where "map_of (props (objs st) a) k = Some v"
      "hasOwnProperty env (props (objs st) a) k = Throws x" "r = Some x" "st' = st"
  | (fnprop) v where "map_of (props (objs st) a) k = Some v" "typeof v = TFunction"
      "prune_keys env n path a ks
         (st\<lparr>callbacks := AList.update (path @ (if path \<noteq> [] then ''/'' else []) @ k) v (callbacks st),
             callbackNames := callbackNames st @ [path @ (if path \<noteq> [] then ''/'' else []) @ k],
             objs := (objs st)[a := AList.delete k (props (objs st) a)]\<rparr>) = Some (r, st')"
  | (threw) v e where "map_of (props (objs st) a) k = Some v" "typeof v = TObject"
      "pruneFunctions env n (path @ (if path \<noteq> [] then ''/'' else []) @ k) v st = Some (Some e, st')" "r = Some e"
  | (object) v st1 where "map_of (props (objs st) a) k = Some v" "typeof v = TObject"
      "pruneFunctions env n (path @ (if path \<noteq> [] then ''/'' else []) @ k) v st = Some (None, st1)"
      "prune_keys env n path a ks st1 = Some (r, st')"
proof (cases "map_of (props (objs st) a) k")
  case None
  with assms have "prune_keys env n path a ks st = Some (r, st')" by simp
  from skip[OF this] None show ?thesis by blast
next
  case (Some v)
  let ?np = "path @ (if path \<noteq> [] then ''/'' else []) @ k"
  show ?thesis
  proof (cases "hasOwnProperty env (props (objs st) a) k")
    case (Throws x)
    with Some assms have "r = Some x" "st' = st" by simp_all
    from hop[OF Some Throws this] show ?thesis .
  next
    case (Returns own)
    show ?thesis
    proof (cases "truthy_t own")
      case False
      with Some Returns assms have "prune_keys env n path a ks st = Some (r, st')" by simp
      from skip[OF this] Returns False show ?thesis by blast
    next
      case own: True
      show ?thesis
      proof (cases "typeof v = TFunction")
        case True
        with Some Returns own assms
        have "prune_keys env n path a ks
           (st\<lparr>callbacks := AList.update ?np v (callbacks st),
               callbackNames := callbackNames st @ [?np],
               objs := (objs st)[a := AList.delete k (props (objs st) a)]\<rparr>) = Some (r, st')"
          by (simp add: Let_def)
        from fnprop[OF Some True this] show ?thesis .
      next
        case nf: False
        show ?thesis
        proof (cases "typeof v = TObject")
          case True
          from Some Returns own nf True assms
          have eq: "(case pruneFunctions env n ?np v st of
                          None \<Rightarrow> None
                        | Some (Some e, st') \<Rightarrow> Some (Some e, st')
                        | Some (None, st') \<Rightarrow> prune_keys env n path a ks st') = Some (r, st')"
            by (simp add: Let_def)
          show ?thesis
          proof (cases "pruneFunctions env n ?np v st")
            case None
            with eq show ?thesis by simp
          next
            case (Some res)
            obtain x st1 where res: "res = (x, st1)" by (cases res)
            show ?thesis
            proof (cases x)
              case None
              with eq Some res have "prune_keys env n path a ks st1 = Some (r, st')" by simp
              from object[OF \<open>map_of (props (objs st) a) k = Some v\<close> True _ this] Some res None
              show ?thesis by simp
            next
              case (Some e)
              with eq \<open>pruneFunctions env n ?np v st = Some res\<close> res
              have "r = Some e" "st1 = st'" by simp_all
              with threw[OF \<open>map_of (props (objs st) a) k = Some v\<close> True, of e]
                \<open>pruneFunctions env n ?np v st = Some res\<close> res Some
              show ?thesis by simp
            qed
          qed
        next
          case False
          with Some Returns own nf assms have "prune_keys env n path a ks st = Some (r, st')"
            by (simp add: Let_def)
          from skip[OF this] Some nf False show ?thesis by blast
        qed
      qed
    qed
  qed
qed

lemma prune_grows:
  "pruneFunctions env n path obj st = Some (r, st') \<Longrightarrow> grows st st'"
  "prune_keys env n path a ks st = Some (r, st') \<Longrightarrow> grows st st'"
proof (induction n path obj st and n path a ks st arbitrary: r st' and r st' rule: prune_induct)
  case (zero path obj st)
  then show ?case by simp
next
  case (suc n path obj st)
  from suc.prems show ?case
  proof (cases rule: pruneFunctions_Suc_cases)
    case seen
    then show ?thesis by (simp add: grows_refl)
  next
    case (object a)
    from suc.IH[OF object(3)] show ?thesis
      using grows_push grows_trans by blast
  next
    case other
    then show ?thesis by (simp add: grows_refl grows_push)
  qed
next
  case (nil n path a st)
  then show ?case by (simp add: grows_refl)
next
  case (cons n path a k ks st)
  from cons.prems show ?case
  proof (cases rule: prune_keys_Cons_cases)
    case skip
    from cons.IH(1)[OF skip(1)] show ?thesis .
  next
    case (hop v x)
    then show ?thesis by (simp add: grows_refl)
  next
    case (fnprop v)
    from cons.IH(1)[OF fnprop(3)] grows_delete[OF fnprop(1,2)]
    show ?thesis using grows_trans by blast
  next
    case (threw v e)
    from cons.IH(2)[OF threw(3)] show ?thesis .
  next
    case (object v st1)
    from cons.IH(2)[OF object(3)] cons.IH(1)[OF object(4)]
    show ?thesis using grows_trans by blast
  qed
qed

lemma grows_seen: "grows st st' \<Longrightarrow> x \<in> set (seen st) \<Longrightarrow> x \<in> set (seen st')"
  by (auto simp: grows_def)

lemma grows_length: "grows st st' \<Longrightarrow> length (objs st') = length (objs st)"
  by (simp add: grows_def shrinksD(1))

lemma unseen_grows: "grows st st' \<Longrightarrow> unseen st' \<le> unseen st"
  unfolding unseen_def
  by (rule card_mono) (auto simp: grows_length dest: grows_seen)

lemma unseen_push:
  assumes "a < length (objs st)" "Ref a \<notin> set (seen st)"
  shows "unseen (st\<lparr>seen := seen st @ [Ref a]\<rparr>) < unseen st"
  unfolding unseen_def
  by (rule psubset_card_mono) (use assms in auto)

lemma prune_fuel:
  "unseen st < n \<Longrightarrow> \<exists>res. pruneFunctions env n path obj st = Some res"
  "unseen st < n \<Longrightarrow> \<exists>res. prune_keys env n path a ks st = Some res"
proof (induction n path obj st and n path a ks st rule: prune_induct)
  case (zero path obj st)
  then show ?case by simp
next
  case (suc n path obj st)
  show ?case
  proof (cases "obj \<in> set (seen st)")
    case True
    then show ?thesis by simp
  next
    case False
    show ?thesis
    proof (cases obj)
      case (Ref a)
      show ?thesis
      proof (cases "a < length (objs st)")
        case True
        with False Ref have "unseen (st\<lparr>seen := seen st @ [Ref a]\<rparr>) < unseen st"
          using unseen_push by simp
        with suc.prems have "unseen (st\<lparr>seen := seen st @ [Ref a]\<rparr>) < n" by simp
        from suc.IH[OF this] Ref False
        show ?thesis by simp
      next
        case out: False
        then have "props (objs st) a = []" by (simp add: props_def)
        with False Ref show ?thesis by simp
      qed
    qed (use False in simp_all)
  qed
next
  case (nil n path a st)
  then show ?case by simp
next
  case (cons n path a k ks st)
  note tl = cons.IH(1)
  show ?case
  proof (cases "map_of (props (objs st) a) k")
    case None
    with tl[OF cons.prems] show ?thesis by simp
  next
    case (Some v)
    let ?np = "path @ (if path \<noteq> [] then ''/'' else []) @ k"
    show ?thesis
    proof (cases "hasOwnProperty env (props (objs st) a) k")
      case (Throws x)
      with Some show ?thesis by simp
    next
      case (Returns own)
      show ?thesis
      proof (cases "truthy_t own")
        case False
        with Some Returns tl[OF cons.prems] show ?thesis by simp
      next
        case own: True
        show ?thesis
        proof (cases "typeof v = TFunction")
          case True
          let ?st2 = "st\<lparr>callbacks := AList.update ?np v (callbacks st),
                 callbackNames := callbackNames st @ [?np],
                 objs := (objs st)[a := AList.delete k (props (objs st) a)]\<rparr>"
          have "unseen ?st2 \<le> unseen st"
            by (rule unseen_grows) (rule grows_delete[OF Some True])
          with cons.prems have "unseen ?st2 < n" by simp
          from tl[OF this] Some Returns own True show ?thesis
            by (simp add: Let_def)
        next
          case nf: False
          show ?thesis
          proof (cases "typeof v = TObject")
            case True
            from cons.IH(2)[OF cons.prems]
            obtain r st1 where c: "pruneFunctions env n ?np v st = Some (r, st1)" by fastforce
            show ?thesis
            proof (cases r)
              case None
              have "unseen st1 \<le> unseen st"
                using prune_grows(1)[OF c] by (rule unseen_grows)
              with cons.prems have "unseen st1 < n" by simp
              from tl[OF this] None c Some Returns own nf True
              show ?thesis by (simp add: Let_def)
            next
              case (Some e)
              with c \<open>map_of (props (objs st) a) k = Some v\<close> Returns own nf True show ?thesis
                by (simp add: Let_def)
            qed
          next
            case False
            with tl[OF cons.prems] Some Returns own nf show ?thesis
              by (simp add: Let_def)
          qed
        qed
      qed
    qed
  qed
qed

lemma plain_shrinks: "shrinks h h' \<Longrightarrow> plain h \<Longrightarrow> plain h'"
proof -
  assume s: "shrinks h h'" and p: "plain h"
  have "map_of (props h' b) ''hasOwnProperty'' = None" for b
  proof (cases "map_of (props h' b) ''hasOwnProperty''")
    case (Some v)
    from shrinksD(2)[OF s Some] p show ?thesis by (simp add: plain_def)
  qed simp
  then show ?thesis by (simp add: plain_def)
qed

lemma plain_grows: "grows st st' \<Longrightarrow> plain (objs st) \<Longrightarrow> plain (objs st')"
  using plain_shrinks by (auto simp: grows_def)

lemma hasOwnProperty_plain:
  "plain h \<Longrightarrow> map_of (props h a) k = Some v \<Longrightarrow> hasOwnProperty env (props h a) k = Returns (VBool True)"
  by (simp add: plain_def hasOwnProperty_def)

lemma prune_keys_Cons_plain:
  assumes "prune_keys env n path a (k # ks) st = Some (r, st')" "plain (objs st)"
  obtains (skip) "\<forall>v. map_of (props (objs st) a) k = Some v \<longrightarrow> typeof v \<noteq> TFunction \<and> typeof v \<noteq> TObject"
      "prune_keys env n path a ks st = Some (r, st')"
  | (fnprop) v where "map_of (props (objs st) a) k = Some v" "typeof v = TFunction"
      "prune_keys env n path a ks
         (st\<lparr>callbacks := AList.update (path @ (if path \<noteq> [] then ''/'' else []) @ k) v (callbacks st),
             callbackNames := callbackNames st @ [path @ (if path \<noteq> [] then ''/'' else []) @ k],
             objs := (objs st)[a := AList.delete k (props (objs st) a)]\<rparr>) = Some (r, st')"
  | (threw) v e where "map_of (props (objs st) a) k = Some v" "typeof v = TObject"
      "pruneFunctions env n (path @ (if path \<noteq> [] then ''/'' else []) @ k) v st = Some (Some e, st')" "r = Some e"
  | (object) v st1 where "map_of (props (objs st) a) k = Some v" "typeof v = TObject"
      "pruneFunctions env n (path @ (if path \<noteq> [] then ''/'' else []) @ k) v st = Some (None, st1)"
      "prune_keys env n path a ks st1 = Some (r, st')"
  using assms(1)
proof (cases rule: prune_keys_Cons_cases)
  case skip
  have "\<forall>v. map_of (props (objs st) a) k = Some v \<longrightarrow> typeof v \<noteq> TFunction \<and> typeof v \<noteq> TObject"
  proof (intro allI impI)
    fix v assume v: "map_of (props (objs st) a) k = Some v"
    from hasOwnProperty_plain[OF assms(2) v] skip(2) v
    show "typeof v \<noteq> TFunction \<and> typeof v \<noteq> TObject" by auto
  qed
  from that(1)[OF this skip(1)] show ?thesis .
next
  case (hop v x)
  with hasOwnProperty_plain[OF assms(2) hop(1), of env] show ?thesis by simp
next
  case (fnprop v)
  from that(2)[OF this] show ?thesis .
next
  case (threw v e)
  from that(3)[OF this] show ?thesis .
next
  case (object v st1)
  from that(4)[OF this] show ?thesis .
qed

lemma prune_frame:
  "pruneFunctions env n path obj st = Some (r, st') \<Longrightarrow> Ref b \<in> set (seen st) \<Longrightarrow>
     props (objs st') b = props (objs st) b"
  "prune_keys env n path a ks st = Some (r, st') \<Longrightarrow> Ref b \<in> set (seen st) \<Longrightarrow> b \<noteq> a \<Longrightarrow>
     props (objs st') b = props (objs st) b"
proof (induction n path obj st and n path a ks st arbitrary: r st' and r st' rule: prune_induct)
  case (zero path obj st)
  then show ?case by simp
next
  case (suc n path obj st)
  from suc.prems(1) show ?case
  proof (cases rule: pruneFunctions_Suc_cases)
    case seen
    then show ?thesis by simp
  next
    case (object a)
    with suc.prems(2) have "b \<noteq> a" by auto
    with suc.IH[OF object(3)] suc.prems(2) show ?thesis by simp
  next
    case other
    then show ?thesis by simp
  qed
next
  case (nil n path a st)
  then show ?case by simp
next
  case (cons n path a k ks st)
  from cons.prems(1) show ?case
  proof (cases rule: prune_keys_Cons_cases)
    case skip
    from cons.IH(1)[OF skip(1) cons.prems(2,3)] show ?thesis .
  next
    case (hop v x)
    then show ?thesis by simp
  next
    case (fnprop v)
    from cons.IH(1)[OF fnprop(3)] cons.prems(2,3)
    show ?thesis by (simp add: props_update)
  next
    case (threw v e)
    from cons.IH(2)[OF threw(3) cons.prems(2)] show ?thesis .
  next
    case (object v st1)
    have "Ref b \<in> set (seen st1)"
      using prune_grows(1)[OF object(3)] cons.prems(2) by (rule grows_seen)
    from cons.IH(1)[OF object(4) this cons.prems(3)] cons.IH(2)[OF object(3) cons.prems(2)]
    show ?thesis by simp
  qed
qed

lemma walk_Cons_iff:
  "walk h a (k # ks) = Some b \<longleftrightarrow> (\<exists>c. map_of (props h a) k = Some (Ref c) \<and> walk h c ks = Some b)"
  by (auto split: option.splits jsval.splits)

declare walk.simps(2) [simp del]

lemma option_eqI: "(\<And>b. (x = Some b) = (y = Some b)) \<Longrightarrow> x = y"
  by (cases x; cases y) auto

lemma walk_shrinks:
  assumes "shrinks h h'"
  shows "walk h' a ks = walk h a ks"
proof (induction ks arbitrary: a)
  case Nil
  then show ?case by simp
next
  case (Cons k ks)
  have eq: "map_of (props h' a) k = Some (Ref c) \<longleftrightarrow> map_of (props h a) k = Some (Ref c)" for c
  proof
    assume "map_of (props h' a) k = Some (Ref c)"
    then show "map_of (props h a) k = Some (Ref c)"
      by (rule shrinksD(2)[OF assms])
  next
    assume "map_of (props h a) k = Some (Ref c)"
    then show "map_of (props h' a) k = Some (Ref c)"
      by (rule shrinksD(3)[OF assms]) simp
  qed
  show ?case
    by (rule option_eqI) (simp only: walk_Cons_iff eq Cons.IH)
qed

lemma prune_tree:
  "pruneFunctions env n path obj st = Some (None, st') \<Longrightarrow> plain (objs st) \<Longrightarrow> obj = Ref a' \<Longrightarrow>
     (\<forall>p b. walk (objs st) a' p = Some b \<longrightarrow> Ref b \<in> set (seen st') \<and> Ref b \<notin> set (seen st)) \<and>
     (\<forall>p q b. walk (objs st) a' p = Some b \<and> walk (objs st) a' q = Some b \<longrightarrow> p = q)"
  "prune_keys env n path a ks st = Some (None, st') \<Longrightarrow> plain (objs st) \<Longrightarrow>
     (\<forall>k \<in> set ks. \<forall>p b. walk (objs st) a (k # p) = Some b \<longrightarrow>
         Ref b \<in> set (seen st') \<and> Ref b \<notin> set (seen st)) \<and>
     (\<forall>k1 \<in> set ks. \<forall>k2 \<in> set ks. \<forall>p1 p2 b.
         walk (objs st) a (k1 # p1) = Some b \<and> walk (objs st) a (k2 # p2) = Some b \<longrightarrow>
         k1 = k2 \<and> p1 = p2)"
proof (induction n path obj st and n path a ks st arbitrary: st' a' and st' rule: prune_induct)
  case (zero path obj st)
  then show ?case by simp
next
  case (suc n path obj st)
  from suc.prems(1) show ?case
  proof (cases rule: pruneFunctions_Suc_cases)
    case seen
    then show ?thesis by simp
  next
    case (object a)
    with suc.prems(3) have a: "a' = a" by simp
    let ?st1 = "st\<lparr>seen := seen st @ [Ref a]\<rparr>"
    let ?ks = "map fst (props (objs st) a)"
    have p1: "plain (objs ?st1)" using suc.prems(2) by simp
    from suc.IH[OF object(3) p1]
    have sub: "\<And>k p b. k \<in> set ?ks \<Longrightarrow> walk (objs st) a (k # p) = Some b \<Longrightarrow>
          Ref b \<in> set (seen st') \<and> Ref b \<notin> set (seen ?st1)"
      and uniq: "\<And>k1 k2 p1 p2 b. k1 \<in> set ?ks \<Longrightarrow> k2 \<in> set ?ks \<Longrightarrow>
          walk (objs st) a (k1 # p1) = Some b \<Longrightarrow> walk (objs st) a (k2 # p2) = Some b \<Longrightarrow>
          k1 = k2 \<and> p1 = p2"
      by (simp, blast)+
    have key: "k \<in> set ?ks" if "walk (objs st) a (k # p) = Some b" for k p b
    proof -
      from that have "map_of (props (objs st) a) k \<noteq> None"
        by (auto simp: walk_Cons_iff)
      then show ?thesis by (simp add: map_of_eq_None_iff)
    qed
    have a_in: "Ref a \<in> set (seen st')"
      using prune_grows(2)[OF object(3)] by (auto dest: grows_seen)
    have reach: "Ref b \<in> set (seen st') \<and> Ref b \<notin> set (seen st)"
      and notroot: "p \<noteq> [] \<longrightarrow> b \<noteq> a"
      if "walk (objs st) a p = Some b" for p b
    proof -
      show "Ref b \<in> set (seen st') \<and> Ref b \<notin> set (seen st)"
      proof (cases p)
        case Nil
        with that a_in object(1,2) show ?thesis by simp
      next
        case (Cons k p')
        with that sub[OF key] show ?thesis by fastforce
      qed
      show "p \<noteq> [] \<longrightarrow> b \<noteq> a"
      proof (cases p)
        case Nil
        then show ?thesis by simp
      next
        case (Cons k p')
        with that sub[OF key] show ?thesis by fastforce
      qed
    qed
    have "p = q" if "walk (objs st) a p = Some b" "walk (objs st) a q = Some b" for p q b
    proof (cases p)
      case Nil
      with that(1) have "b = a" by simp
      with notroot[OF that(2)] have "q = []" by blast
      with Nil show ?thesis by simp
    next
      case pc: (Cons k p')
      show ?thesis
      proof (cases q)
        case Nil
        with that(2) have "b = a" by simp
        with notroot[OF that(1)] pc show ?thesis by blast
      next
        case (Cons k2 q')
        with pc that uniq[OF key key] show ?thesis by blast
      qed
    qed
    with reach a show ?thesis by blast
  next
    case other
    with suc.prems(3) show ?thesis by simp
  qed
next
  case (nil n path a st)
  then show ?case by simp
next
  case (cons n path a k ks st)
  from cons.prems(1,2) show ?case
  proof (cases rule: prune_keys_Cons_plain)
    case skip
    from cons.IH(1)[OF skip(2) cons.prems(2)]
    have tl: "(\<forall>k \<in> set ks. \<forall>p b. walk (objs st) a (k # p) = Some b \<longrightarrow>
         Ref b \<in> set (seen st') \<and> Ref b \<notin> set (seen st)) \<and>
     (\<forall>k1 \<in> set ks. \<forall>k2 \<in> set ks. \<forall>p1 p2 b.
         walk (objs st) a (k1 # p1) = Some b \<and> walk (objs st) a (k2 # p2) = Some b \<longrightarrow>
         k1 = k2 \<and> p1 = p2)" .
    have nohead: "walk (objs st) a (k # p) \<noteq> Some b" for p b
      using skip(1) by (auto simp: walk_Cons_iff)
    from tl nohead show ?thesis
      by simp
  next
    case (fnprop v)
    let ?np = "path @ (if path \<noteq> [] then ''/'' else []) @ k"
    let ?st2 = "st\<lparr>callbacks := AList.update ?np v (callbacks st),
             callbackNames := callbackNames st @ [?np],
             objs := (objs st)[a := AList.delete k (props (objs st) a)]\<rparr>"
    have w: "walk (objs ?st2) c p = walk (objs st) c p" for c p
      using walk_shrinks[OF shrinks_delete[OF fnprop(1,2)]] by simp
    have p2: "plain (objs ?st2)"
      using plain_shrinks[OF shrinks_delete[OF fnprop(1,2)] cons.prems(2)] by simp
    have nohead: "walk (objs st) a (k # p) \<noteq> Some b" for p b
      using fnprop(1,2) by (auto simp: walk_Cons_iff)
    from cons.IH(1)[OF fnprop(3) p2] nohead show ?thesis
      unfolding w by simp
  next
    case (threw v e)
    then show ?thesis by simp
  next
    case (object v st1)
    let ?np = "path @ (if path \<noteq> [] then ''/'' else []) @ k"
    have g1: "grows st st1" by (rule prune_grows(1)[OF object(3)])
    have g2: "grows st1 st'" by (rule prune_grows(2)[OF object(4)])
    have p1: "plain (objs st1)" by (rule plain_grows[OF g1 cons.prems(2)])
    have w: "walk (objs st1) c p = walk (objs st) c p" for c p
      using walk_shrinks g1 by (simp add: grows_def)
    from cons.IH(1)[OF object(4) p1]
    have tl1: "\<And>k' p b. k' \<in> set ks \<Longrightarrow> walk (objs st) a (k' # p) = Some b \<Longrightarrow>
          Ref b \<in> set (seen st') \<and> Ref b \<notin> set (seen st1)"
      and tl2: "\<And>k1 k2 p1 p2 b. k1 \<in> set ks \<Longrightarrow> k2 \<in> set ks \<Longrightarrow>
          walk (objs st) a (k1 # p1) = Some b \<Longrightarrow> walk (objs st) a (k2 # p2) = Some b \<Longrightarrow>
          k1 = k2 \<and> p1 = p2"
      unfolding w by (simp, blast)+
    have hd1: "Ref b \<in> set (seen st1) \<and> Ref b \<notin> set (seen st)"
      and hd2: "walk (objs st) a (k # q) = Some b \<longrightarrow> p = q"
      if "walk (objs st) a (k # p) = Some b" for p q b
    proof -
      from that object(1) obtain c where c: "v = Ref c" "walk (objs st) c p = Some b"
        by (auto simp: walk_Cons_iff)
      from cons.IH(2)[OF object(3) cons.prems(2) c(1)] c(2)
      show "Ref b \<in> set (seen st1) \<and> Ref b \<notin> set (seen st)" by blast
      show "walk (objs st) a (k # q) = Some b \<longrightarrow> p = q"
      proof
        assume "walk (objs st) a (k # q) = Some b"
        with object(1) c(1) have "walk (objs st) c q = Some b"
          by (auto simp: walk_Cons_iff)
        with cons.IH(2)[OF object(3) cons.prems(2) c(1)] c(2)
        show "p = q" by blast
      qed
    qed
    have first: "Ref b \<in> set (seen st') \<and> Ref b \<notin> set (seen st)"
      if "k' \<in> set (k # ks)" "walk (objs st) a (k' # p) = Some b" for k' p b
    proof (cases "k' = k")
      case True
      with hd1 that(2) g2 show ?thesis by (auto dest: grows_seen)
    next
      case False
      with that tl1[of k' p b] g1 show ?thesis by (auto dest: grows_seen)
    qed
    have second: "k1 = k2 \<and> p1 = p2"
      if "k1 \<in> set (k # ks)" "k2 \<in> set (k # ks)"
        "walk (objs st) a (k1 # p1) = Some b" "walk (objs st) a (k2 # p2) = Some b"
      for k1 k2 p1 p2 b
    proof (cases "k1 = k")
      case k1: True
      show ?thesis
      proof (cases "k2 = k")
        case True
        with k1 that hd2 show ?thesis by blast
      next
        case False
        with that(2) have "k2 \<in> set ks" by simp
        from tl1[OF this that(4)] hd1[of p1 b] that(3) k1 show ?thesis by blast
      qed
    next
      case k1: False
      with that(1) have in1: "k1 \<in> set ks" by simp
      show ?thesis
      proof (cases "k2 = k")
        case True
        from tl1[OF in1 that(3)] hd1[of p2 b] that(4) True show ?thesis by blast
      next
        case False
        with that(2) have "k2 \<in> set ks" by simp
        from tl2[OF in1 this that(3,4)] show ?thesis .
      qed
    qed
    from first second show ?thesis by blast
  qed
qed


lemma fn_free_shrinks: "shrinks h h' \<Longrightarrow> fn_free h b \<Longrightarrow> fn_free h' b"
  unfolding fn_free_def using shrinksD(2) by blast

lemma map_of_key: "map_of ps k = Some v \<Longrightarrow> k \<in> set (map fst ps)"
proof -
  assume "map_of ps k = Some v"
  then have "map_of ps k \<noteq> None" by simp
  then show ?thesis by (simp add: map_of_eq_None_iff)
qed

lemma prune_fn_free:
  "pruneFunctions env n path obj st = Some (None, st') \<Longrightarrow> plain (objs st) \<Longrightarrow>
     Ref b \<in> set (seen st') \<Longrightarrow> Ref b \<notin> set (seen st) \<Longrightarrow> fn_free (objs st') b"
  "prune_keys env n path a ks st = Some (None, st') \<Longrightarrow> plain (objs st) \<Longrightarrow>
     (Ref b \<in> set (seen st') \<longrightarrow> Ref b \<notin> set (seen st) \<longrightarrow> fn_free (objs st') b) \<and>
     (\<forall>k \<in> set ks. \<forall>v. map_of (props (objs st') a) k = Some v \<longrightarrow> typeof v \<noteq> TFunction)"
proof (induction n path obj st and n path a ks st arbitrary: st' and st' rule: prune_induct)
  case (zero path obj st)
  then show ?case by simp
next
  case (suc n path obj st)
  from suc.prems(1) show ?case
  proof (cases rule: pruneFunctions_Suc_cases)
    case seen
    with suc.prems show ?thesis by simp
  next
    case (object a)
    let ?st1 = "st\<lparr>seen := seen st @ [Ref a]\<rparr>"
    have p1: "plain (objs ?st1)" using suc.prems(2) by simp
    from suc.IH[OF object(3) p1]
    have ih: "(Ref b \<in> set (seen st') \<longrightarrow> Ref b \<notin> set (seen ?st1) \<longrightarrow> fn_free (objs st') b) \<and>
       (\<forall>k \<in> set (map fst (props (objs st) a)). \<forall>v.
          map_of (props (objs st') a) k = Some v \<longrightarrow> typeof v \<noteq> TFunction)"
      by simp
    from ih have new: "Ref b \<in> set (seen st') \<Longrightarrow> Ref b \<notin> set (seen ?st1) \<Longrightarrow> fn_free (objs st') b"
      by blast
    from ih have keys: "\<And>k v. k \<in> set (map fst (props (objs st) a)) \<Longrightarrow>
          map_of (props (objs st') a) k = Some v \<Longrightarrow> typeof v \<noteq> TFunction"
      by blast
    show ?thesis
    proof (cases "b = a")
      case True
      have "typeof v \<noteq> TFunction" if "map_of (props (objs st') a) k = Some v" for k v
      proof -
        have "shrinks (objs ?st1) (objs st')"
          using prune_grows(2)[OF object(3)] by (simp add: grows_def)
        from shrinksD(2)[OF this that] have "map_of (props (objs st) a) k = Some v" by simp
        then have "k \<in> set (map fst (props (objs st) a))" by (rule map_of_key)
        from keys[OF this that] show ?thesis .
      qed
      with True show ?thesis by (simp add: fn_free_def)
    next
      case False
      with new suc.prems(3,4) show ?thesis by simp
    qed
  next
    case other
    with suc.prems(3,4) show ?thesis by (auto split: if_splits)
  qed
next
  case (nil n path a st)
  then show ?case by simp
next
  case (cons n path a k ks st)
  from cons.prems(1,2) show ?case
  proof (cases rule: prune_keys_Cons_plain)
    case skip
    note tl = cons.IH(1)[OF skip(2) cons.prems(2)]
    have "typeof v \<noteq> TFunction" if "map_of (props (objs st') a) k = Some v" for v
    proof -
      have "shrinks (objs st) (objs st')"
        using prune_grows(2)[OF skip(2)] by (simp add: grows_def)
      from shrinksD(2)[OF this that] skip(1) show ?thesis by blast
    qed
    with tl show ?thesis by simp
  next
    case (fnprop v)
    let ?np = "path @ (if path \<noteq> [] then ''/'' else []) @ k"
    let ?st2 = "st\<lparr>callbacks := AList.update ?np v (callbacks st),
             callbackNames := callbackNames st @ [?np],
             objs := (objs st)[a := AList.delete k (props (objs st) a)]\<rparr>"
    from fnprop(1) have a: "a < length (objs st)"
      by (auto simp: props_def split: if_splits)
    have p2: "plain (objs ?st2)"
      using plain_shrinks[OF shrinks_delete[OF fnprop(1,2)] cons.prems(2)] by simp
    have "map_of (props (objs st') a) k \<noteq> Some w" for w
    proof
      assume w: "map_of (props (objs st') a) k = Some w"
      have "shrinks (objs ?st2) (objs st')"
        using prune_grows(2)[OF fnprop(3)] by (simp add: grows_def)
      from shrinksD(2)[OF this w] a show False
        by (simp add: props_update delete_conv')
    qed
    with cons.IH(1)[OF fnprop(3) p2] show ?thesis by simp
  next
    case (threw v e)
    then show ?thesis by simp
  next
    case (object v st1)
    have nf: "typeof v \<noteq> TFunction" using object(2) by simp
    have s2: "shrinks (objs st1) (objs st')"
      using prune_grows(2)[OF object(4)] by (simp add: grows_def)
    have s1: "shrinks (objs st) (objs st1)"
      using prune_grows(1)[OF object(3)] by (simp add: grows_def)
    have p1: "plain (objs st1)" by (rule plain_shrinks[OF s1 cons.prems(2)])
    note tl = cons.IH(1)[OF object(4) p1]
    note hd = cons.IH(2)[OF object(3) cons.prems(2)]
    have one: "fn_free (objs st') b" if "Ref b \<in> set (seen st')" "Ref b \<notin> set (seen st)"
    proof (cases "Ref b \<in> set (seen st1)")
      case True
      from fn_free_shrinks[OF s2 hd[OF True that(2)]] show ?thesis .
    next
      case False
      with tl that(1) show ?thesis by blast
    qed
    have "typeof w \<noteq> TFunction" if "map_of (props (objs st') a) k = Some w" for w
    proof -
      from shrinksD(2)[OF s1 shrinksD(2)[OF s2 that]] object(1) nf show ?thesis by simp
    qed
    with one tl show ?thesis by simp
  qed
qed

lemma prune_keys_records:
  assumes "prune_keys env n path a ks st = Some (None, st')" "plain (objs st)"
    and "k \<in> set ks" "map_of (props (objs st) a) k = Some v" "typeof v = TFunction"
    and "Ref a \<in> set (seen st)"
  shows "path @ (if path \<noteq> [] then ''/'' else []) @ k \<in> set (callbackNames st')"
  using assms
proof (induction ks arbitrary: st)
  case Nil
  then show ?case by simp
next
  case (Cons k0 ks)
  from Cons.prems(1,2) show ?case
  proof (cases rule: prune_keys_Cons_plain)
    case skip
    with Cons.prems have "k \<noteq> k0" by auto
    with Cons.prems(3) have "k \<in> set ks" by simp
    from Cons.IH[OF skip(2) Cons.prems(2) this Cons.prems(4,5,6)] show ?thesis .
  next
    case (fnprop v0)
    let ?np0 = "path @ (if path \<noteq> [] then ''/'' else []) @ k0"
    let ?st2 = "st\<lparr>callbacks := AList.update ?np0 v0 (callbacks st),
             callbackNames := callbackNames st @ [?np0],
             objs := (objs st)[a := AList.delete k0 (props (objs st) a)]\<rparr>"
    have p2: "plain (objs ?st2)"
      using plain_shrinks[OF shrinks_delete[OF fnprop(1,2)] Cons.prems(2)] by simp
    show ?thesis
    proof (cases "k = k0")
      case True
      have "?np0 \<in> set (callbackNames ?st2)" by simp
      with prune_grows(2)[OF fnprop(3)] True show ?thesis
        by (auto simp: grows_def)
    next
      case False
      with Cons.prems(3) have in_tl: "k \<in> set ks" by simp
      from Cons.prems(4) have a: "a < length (objs st)"
        by (auto simp: props_def split: if_splits)
      with False Cons.prems(4) have "map_of (props (objs ?st2) a) k = Some v"
        by (simp add: props_update delete_conv')
      from Cons.IH[OF fnprop(3) p2 in_tl this Cons.prems(5)] Cons.prems(6) show ?thesis by simp
    qed
  next
    case (threw v0 e)
    then show ?thesis by simp
  next
    case (object v0 st1)
    with Cons.prems(4,5) have "k \<noteq> k0" by auto
    with Cons.prems(3) have in_tl: "k \<in> set ks" by simp
    have same: "props (objs st1) a = props (objs st) a"
      by (rule prune_frame(1)[OF object(3) Cons.prems(6)])
    have p1: "plain (objs st1)"
      by (rule plain_grows[OF prune_grows(1)[OF object(3)] Cons.prems(2)])
    have "Ref a \<in> set (seen st1)"
      using prune_grows(1)[OF object(3)] Cons.prems(6) by (rule grows_seen)
    from Cons.IH[OF object(4) p1 in_tl _ Cons.prems(5) this] same Cons.prems(4) show ?thesis by simp
  qed
qed

lemma prune_throws_only:
  "pruneFunctions env n path obj st = Some (Some e, st') \<Longrightarrow> plain (objs st) \<Longrightarrow> e = VStr recursive_params"
  "prune_keys env n path a ks st = Some (Some e, st') \<Longrightarrow> plain (objs st) \<Longrightarrow> e = VStr recursive_params"
proof (induction n path obj st and n path a ks st arbitrary: e st' and e st' rule: prune_induct)
  case (zero path obj st)
  then show ?case by simp
next
  case (suc n path obj st)
  from suc.prems(1) show ?case
  proof (cases rule: pruneFunctions_Suc_cases)
    case seen
    then show ?thesis by simp
  next
    case (object a)
    from suc.IH[OF object(3)] suc.prems(2) show ?thesis by simp
  next
    case other
    then show ?thesis by simp
  qed
next
  case (nil n path a st)
  then show ?case by simp
next
  case (cons n path a k ks st)
  from cons.prems(1,2) show ?case
  proof (cases rule: prune_keys_Cons_plain)
    case skip
    from cons.IH(1)[OF skip(2) cons.prems(2)] show ?thesis .
  next
    case (fnprop v)
    have "plain ((objs st)[a := AList.delete k (props (objs st) a)])"
      by (rule plain_shrinks[OF shrinks_delete[OF fnprop(1,2)] cons.prems(2)])
    with cons.IH(1)[OF fnprop(3)] show ?thesis by simp
  next
    case (threw v e')
    from cons.IH(2)[OF threw(3) cons.prems(2)] threw(4) show ?thesis by simp
  next
    case (object v st1)
    have "plain (objs st1)"
      by (rule plain_grows[OF prune_grows(1)[OF object(3)] cons.prems(2)])
    from cons.IH(1)[OF object(4) this] show ?thesis .
  qed
qed

lemma unseen_start: "unseen (prune_start h) = length h"
  by (simp add: unseen_def prune_start_def)

lemma walk_append:
  "walk h a (p @ q) = (case walk h a p of Some b \<Rightarrow> walk h b q | None \<Rightarrow> None)"
proof (induction p arbitrary: a)
  case Nil
  then show ?case by simp
next
  case (Cons k p)
  show ?case
  proof (cases "\<exists>c. map_of (props h a) k = Some (Ref c)")
    case True
    then obtain c where "map_of (props h a) k = Some (Ref c)" by blast
    with Cons.IH[of c] show ?thesis by (simp add: walk.simps(2))
  next
    case False
    then have "walk h a (k # p) = None" "walk h a (k # p @ q) = None"
      by (auto simp: walk.simps(2) split: option.splits jsval.splits)
    then show ?thesis by simp
  qed
qed

lemma call_total: "call env c m h w \<noteq> None"
proof (cases m)
  case None
  then show ?thesis by (simp add: call_def)
next
  case (Some args)
  have "unseen (prune_start h) < Suc (length h)" by (simp add: unseen_start)
  from prune_fuel(1)[OF this, of env "[]" "c_params args"]
  obtain r st where "pruneFunctions env (Suc (length h)) [] (c_params args) (prune_start h) = Some (r, st)"
    by auto
  with Some show ?thesis
    unfolding call_def prune_start_def
    by (cases r) (simp_all del: pruneFunctions.simps add: Let_def)
qed

lemma call_rejects_two_paths:
  assumes "valid_call m" "c_params m = Ref a" "plain h"
    and "walk h a p = Some b" "walk h a q = Some b" "p \<noteq> q"
  shows "\<exists>h'. call env c (Some m) h w = Some (Some (VStr recursive_params), h', w)"
proof -
  have "unseen (prune_start h) < Suc (length h)" by (simp add: unseen_start)
  from prune_fuel(1)[OF this, of env "[]" "c_params m"]
  obtain r st where r: "pruneFunctions env (Suc (length h)) [] (c_params m) (prune_start h) = Some (r, st)"
    by auto
  have pl: "plain (objs (prune_start h))" using assms(3) by (simp add: prune_start_def)
  show ?thesis
  proof (cases r)
    case None
    from prune_tree(1)[OF r[unfolded None] pl assms(2)] assms(4,5)
    have "p = q" by (simp add: prune_start_def)
    with assms(6) show ?thesis by simp
  next
    case (Some e)
    with r prune_throws_only(1)[OF _ pl] have e: "e = VStr recursive_params" by blast
    from assms(1) r Some e show ?thesis
      unfolding call_def valid_call_def prune_start_def
      by (simp del: pruneFunctions.simps)
  qed
qed

lemma call_rejects_cycles:
  assumes "valid_call args" "c_params args = Ref a" "plain h"
    and "walk h a p = Some b" "walk h b q = Some b" "q \<noteq> []"
  shows "\<exists>h'. call env c (Some args) h w = Some (Some (VStr recursive_params), h', w)"
proof -
  from assms(4,5,6) have "walk h a (p @ q) = Some b" "p \<noteq> p @ q"
    by (simp_all add: walk_append)
  from call_rejects_two_paths[OF assms(1,2,3,4) this] show ?thesis .
qed

subsection \<open>Objects with a property hasOwnProperty of their own\<close>

text \<open>
  C9: \<^verbatim>\<open>call\<close> throws the recursive-structure error on every params with a cycle. The loop
  of \<^verbatim>\<open>pruneFunctions\<close> calls \<^verbatim>\<open>obj.hasOwnProperty(k)\<close>, a method of the client's object:
  on \<^verbatim>\<open>o = {hasOwnProperty: 1, self: o}\<close>, which has a cycle, \<^verbatim>\<open>call\<close> throws a
  \<^verbatim>\<open>TypeError\<close> at the first key, not the recursive-structure error. The walk does end on
  every input (\<open>call_total\<close>), and on params whose objects have no property
  \<^verbatim>\<open>hasOwnProperty\<close> of their own a cycle is rejected with that error
  (\<open>call_rejects_cycles\<close>).
\<close>

theorem own_hasOwnProperty_breaks_cycle_check:
  "walk [[(''hasOwnProperty'', Num 1), (''self'', Ref 0)]] 0 [''self''] = Some 0 \<and>
   call env 0 (Some \<lparr>c_method = Str ''foo'', c_params = Ref 0, c_success = Fn 1,
                     c_error = Undefined, c_timeout = None\<rparr>)
        [[(''hasOwnProperty'', Num 1), (''self'', Ref 0)]] (new_world 1 ''chat'')
     = Some (Some type_error, [[(''hasOwnProperty'', Num 1), (''self'', Ref 0)]], new_world 1 ''chat'') \<and>
   type_error \<noteq> VStr recursive_params"
  by (simp add: call_def prune_start_def props_def hasOwnProperty_def type_error_def walk.simps)

theorem own_hasOwnProperty_breaks_cycle_check_witness:
  "walk [[(''hasOwnProperty'', Num 1), (''self'', Ref 0)]] 0 [''self''] = Some 0 \<and>
   call (\<lparr>client_fn = (\<lambda>f args. ([], Returns VUndef)),
            json_stringify = (\<lambda>v. Returns VUndef), to_string = (\<lambda>v. Returns (VStr [])),
            builtin = (\<lambda>k args. Returns VUndef)\<rparr>)
        0 (Some \<lparr>c_method = Str ''foo'', c_params = Ref 0, c_success = Fn 1,
                     c_error = Undefined, c_timeout = None\<rparr>)
        [[(''hasOwnProperty'', Num 1), (''self'', Ref 0)]] (new_world 1 ''chat'')
     = Some (Some type_error, [[(''hasOwnProperty'', Num 1), (''self'', Ref 0)]], new_world 1 ''chat'') \<and>
   type_error \<noteq> VStr recursive_params"
  by (rule own_hasOwnProperty_breaks_cycle_check
      [where env = "\<lparr>client_fn = (\<lambda>f args. ([], Returns VUndef)),
            json_stringify = (\<lambda>v. Returns VUndef), to_string = (\<lambda>v. Returns (VStr [])),
            builtin = (\<lambda>k args. Returns VUndef)\<rparr>"])

text \<open>
  C10: \<^verbatim>\<open>call\<close> throws the recursive-structure error on every params in which one object
  is reachable along two paths. On \<^verbatim>\<open>{hasOwnProperty: 1, a: s, b: s}\<close> it throws a
  \<^verbatim>\<open>TypeError\<close> instead, and where \<^verbatim>\<open>hasOwnProperty\<close> is a function of the client that returns
  \<^verbatim>\<open>false\<close> the loop skips every key: \<^verbatim>\<open>call\<close> returns and the request is queued. On params
  whose objects have no property \<^verbatim>\<open>hasOwnProperty\<close> of their own the claim holds
  (\<open>call_rejects_two_paths\<close>).
\<close>

theorem own_hasOwnProperty_hides_shared_object:
  "walk [[(''hasOwnProperty'', Num 1), (''a'', Ref 1), (''b'', Ref 1)], []] 0 [''a''] = Some 1 \<and>
   walk [[(''hasOwnProperty'', Num 1), (''a'', Ref 1), (''b'', Ref 1)], []] 0 [''b''] = Some 1 \<and>
   call env 0 (Some \<lparr>c_method = Str ''foo'', c_params = Ref 0, c_success = Fn 1,
                     c_error = Undefined, c_timeout = None\<rparr>)
        [[(''hasOwnProperty'', Num 1), (''a'', Ref 1), (''b'', Ref 1)], []] (new_world 1 ''chat'')
     = Some (Some type_error, [[(''hasOwnProperty'', Num 1), (''a'', Ref 1), (''b'', Ref 1)], []],
             new_world 1 ''chat'') \<and>
   type_error \<noteq> VStr recursive_params \<and>
   (case call (env\<lparr>client_fn := (\<lambda>f args. ([], Returns (VBool False)))\<rparr>) 0
           (Some \<lparr>c_method = Str ''foo'', c_params = Ref 0, c_success = Fn 1,
                  c_error = Undefined, c_timeout = None\<rparr>)
           [[(''hasOwnProperty'', Fn 9), (''a'', Ref 1), (''b'', Ref 1)], []] (new_world 1 ''chat'') of
      None \<Rightarrow> False
    | Some (x, h', w') \<Rightarrow>
        x = None \<and> h' = [[(''hasOwnProperty'', Fn 9), (''a'', Ref 1), (''b'', Ref 1)], []] \<and>
        pendingQueue (chans w' 0) = [Request 1 ''chat::foo'' (Ref 0) None])"
  by (simp add: call_def prune_start_def props_def hasOwnProperty_def type_error_def walk.simps
      new_world_def new_chan_def postMessage_def scopeMethod_def Let_def)

theorem own_hasOwnProperty_hides_shared_object_witness:
  "walk [[(''hasOwnProperty'', Num 1), (''a'', Ref 1), (''b'', Ref 1)], []] 0 [''a''] = Some 1 \<and>
   walk [[(''hasOwnProperty'', Num 1), (''a'', Ref 1), (''b'', Ref 1)], []] 0 [''b''] = Some 1 \<and>
   call (\<lparr>client_fn = (\<lambda>f args. ([], Returns VUndef)),
            json_stringify = (\<lambda>v. Returns VUndef), to_string = (\<lambda>v. Returns (VStr [])),
            builtin = (\<lambda>k args. Returns VUndef)\<rparr>)
        0 (Some \<lparr>c_method = Str ''foo'', c_params = Ref 0, c_success = Fn 1,
                     c_error = Undefined, c_timeout = None\<rparr>)
        [[(''hasOwnProperty'', Num 1), (''a'', Ref 1), (''b'', Ref 1)], []] (new_world 1 ''chat'')
     = Some (Some type_error, [[(''hasOwnProperty'', Num 1), (''a'', Ref 1), (''b'', Ref 1)], []],
             new_world 1 ''chat'') \<and>
   type_error \<noteq> VStr recursive_params \<and>
   (case call ((\<lparr>client_fn = (\<lambda>f args. ([], Returns VUndef)),
            json_stringify = (\<lambda>v. Returns VUndef), to_string = (\<lambda>v. Returns (VStr [])),
            builtin = (\<lambda>k args. Returns VUndef)\<rparr>)\<lparr>client_fn := (\<lambda>f args. ([], Returns (VBool False)))\<rparr>) 0
           (Some \<lparr>c_method = Str ''foo'', c_params = Ref 0, c_success = Fn 1,
                  c_error = Undefined, c_timeout = None\<rparr>)
           [[(''hasOwnProperty'', Fn 9), (''a'', Ref 1), (''b'', Ref 1)], []] (new_world 1 ''chat'') of
      None \<Rightarrow> False
    | Some (x, h', w') \<Rightarrow>
        x = None \<and> h' = [[(''hasOwnProperty'', Fn 9), (''a'', Ref 1), (''b'', Ref 1)], []] \<and>
        pendingQueue (chans w' 0) = [Request 1 ''chat::foo'' (Ref 0) None])"
  by (rule own_hasOwnProperty_hides_shared_object
      [where env = "\<lparr>client_fn = (\<lambda>f args. ([], Returns VUndef)),
            json_stringify = (\<lambda>v. Returns VUndef), to_string = (\<lambda>v. Returns (VStr [])),
            builtin = (\<lambda>k args. Returns VUndef)\<rparr>"])

subsection \<open>The transaction counter\<close>

text \<open>
  C3: transaction ids start from a randomized odd seed. The seed is
  \<^verbatim>\<open>Math.floor(Math.random()*1000001)\<close>, which is any integer from 0 to 1000000: when
  \<^verbatim>\<open>Math.random()\<close> returns 0.5 the first id is 500000, which is even, and when it returns
  0 the first id is 0.
\<close>

theorem seed_can_be_even:
  "initial_s_curTranId (1 / 2) = 500000 \<and> \<not> odd (initial_s_curTranId (1 / 2)) \<and> initial_s_curTranId 0 = 0"
  by (simp add: initial_s_curTranId_def)

subsection \<open>Scope and the method names on the wire\<close>

lemma split_colons_nonempty: "split_colons s \<noteq> []"
  by (induction s rule: split_colons.induct) (auto split: list.splits)

lemma split_colons_has:
  "has_colons s \<Longrightarrow> length (split_colons s) > 1"
proof (induction s rule: split_colons.induct)
  case 1
  then show ?case by (simp add: has_colons_def)
next
  case (2 c)
  then show ?case by (auto simp: has_colons_def Cons_eq_append_conv)
next
  case (3 c d cs)
  show ?case
  proof (cases "c = CHR '':'' \<and> d = CHR '':''")
    case True
    then show ?thesis using split_colons_nonempty[of cs] by (cases "split_colons cs") auto
  next
    case False
    from "3.prems" obtain p q where pq: "c # d # cs = p @ ''::'' @ q"
      by (auto simp: has_colons_def)
    with False obtain p' where "p = c # p'"
      by (cases p) auto
    with pq have "has_colons (d # cs)"
      by (auto simp: has_colons_def)
    with "3.IH"(2) False have "length (split_colons (d # cs)) > 1" by blast
    with False show ?thesis
      by (cases "split_colons (d # cs)") auto
  qed
qed

lemma split_colons_none:
  "\<not> has_colons s \<Longrightarrow> split_colons s = [s]"
proof (induction s rule: split_colons.induct)
  case 1
  then show ?case by simp
next
  case (2 c)
  then show ?case by simp
next
  case (3 c d cs)
  from "3.prems" have nc: "\<not> (c = CHR '':'' \<and> d = CHR '':'')"
    unfolding has_colons_def by (metis append_Cons append_Nil)
  have "\<not> has_colons (d # cs)"
  proof
    assume "has_colons (d # cs)"
    then obtain p q where "d # cs = p @ ''::'' @ q" by (auto simp: has_colons_def)
    then have "c # d # cs = (c # p) @ ''::'' @ q" by simp
    with "3.prems" show False unfolding has_colons_def by blast
  qed
  with "3.IH"(2) nc have "split_colons (d # cs) = [d # cs]" by blast
  with nc show ?case by simp
qed

lemma build_scope_ok:
  "build_scope sc = Inr s \<Longrightarrow> \<not> has_colons s \<and> (sc = Undefined \<longrightarrow> s = ''__default'') \<and> (\<forall>x. sc = Str x \<longrightarrow> s = x)"
proof -
  assume a: "build_scope sc = Inr s"
  have d: "\<not> has_colons ''__default''"
  proof
    assume "has_colons ''__default''"
    from split_colons_has[OF this] show False by simp
  qed
  show ?thesis
  proof (cases sc)
    case (Str x)
    with a have "\<not> length (split_colons x) > 1" "s = x"
      by (auto simp: build_scope_def split: if_splits)
    with split_colons_has Str show ?thesis by auto
  qed (use a d in \<open>auto simp: build_scope_def\<close>)
qed

lemma postMessage_fields [simp]:
  "outTbl (postMessage msg f ch) = outTbl ch"
  "inTbl (postMessage msg f ch) = inTbl ch"
  "regTbl (postMessage msg f ch) = regTbl ch"
  "cfg_scope (postMessage msg f ch) = cfg_scope ch"
  "ready (postMessage msg f ch) = ready ch"
  by (simp_all add: postMessage_def)


lemma call_sent:
  assumes "call env c (Some m) h w = Some (None, h', w')"
  obtains st where "valid_call m"
    and "pruneFunctions env (Suc (length h)) [] (c_params m) (prune_start h) = Some (None, st)"
    and "h' = objs st"
    and "s_curTranId w' = s_curTranId w + 1"
    and "s_transIds w' = (s_transIds w)(s_curTranId w \<mapsto> c)"
    and "log w' = log w"
    and "s_boundChans w' = s_boundChans w"
    and "timers w' = (case c_timeout m of
            Some t \<Rightarrow> if t \<noteq> 0 then timers w @ [\<lparr>t_chan = c, t_transId = s_curTranId w, t_timeout = t,
                         t_method = scopeMethod (cfg_scope (chans w c)) (str_of (c_method m))\<rparr>] else timers w
          | None \<Rightarrow> timers w)"
    and "chans w' = (chans w)(c := postMessage
            (Request (s_curTranId w) (scopeMethod (cfg_scope (chans w c)) (str_of (c_method m))) (c_params m)
               (if callbackNames st \<noteq> [] then Some (callbackNames st) else None))
            False
            ((chans w c)\<lparr>outTbl := (outTbl (chans w c))(s_curTranId w \<mapsto>
               \<lparr>e_callbacks = callbacks st, e_error = c_error m, e_success = c_success m\<rparr>)\<rparr>))"
proof -
  from assms have v: "valid_call m"
    by (auto simp: call_def valid_call_def split: if_splits)
  with assms obtain st where st: "pruneFunctions env (Suc (length h)) [] (c_params m) (prune_start h) = Some (None, st)"
    unfolding call_def valid_call_def prune_start_def
    by (auto split: option.splits prod.splits simp del: pruneFunctions.simps)
  from assms v st have w': "h' = objs st \<and> w' = (let i = s_curTranId w;
                      meth = scopeMethod (cfg_scope (chans w c)) (str_of (c_method m));
                      msg = Request i meth (c_params m)
                              (if callbackNames st \<noteq> [] then Some (callbackNames st) else None);
                      w1 = (case c_timeout m of
                              Some t \<Rightarrow> if t \<noteq> 0 then setTransactionTimeout c i t meth w else w
                            | None \<Rightarrow> w);
                      ch1 = (chans w1 c)\<lparr>outTbl := (outTbl (chans w1 c))
                               (i \<mapsto> \<lparr>e_callbacks = callbacks st, e_error = c_error m,
                                      e_success = c_success m\<rparr>)\<rparr>
                  in w1\<lparr>s_transIds := (s_transIds w1)(i \<mapsto> c),
                          s_curTranId := i + 1,
                          chans := (chans w1)(c := postMessage msg False ch1)\<rparr>)"
    unfolding call_def valid_call_def prune_start_def
    by (simp del: pruneFunctions.simps add: Let_def)
  show ?thesis
  proof (rule that[OF v st])
    show "h' = objs st" using w' by simp
  qed (use w' in \<open>auto simp: Let_def setTransactionTimeout_def split: option.splits\<close>)
qed

lemma notify_sent:
  assumes "notify c (Some m) w = (None, w')"
  shows "w' = w\<lparr>chans := (chans w)(c := postMessage
               (Notification (scopeMethod (cfg_scope (chans w c)) (str_of (n_method m))) (n_params m))
               False (chans w c))\<rparr>"
  using assms by (auto simp: notify_def split: if_splits)

text \<open>
  C8, as the claim states it, fails for the default scope: a channel built without a
  scope has the scope \<^verbatim>\<open>__default\<close>, and a notification of the method \<^verbatim>\<open>foo\<close> goes out
  under the method name \<^verbatim>\<open>__default::foo\<close>, not under the bare name \<^verbatim>\<open>foo\<close>.
\<close>

theorem default_scope_counterexample:
  "build_scope Undefined = Inr ''__default'' \<and>
   posted (chans (snd (notify 0 (Some \<lparr>n_method = Str ''foo'', n_params = Undefined\<rparr>)
       ((new_world 1 ''__default'')\<lparr>chans := (\<lambda>c. (new_chan ''__default'')\<lparr>ready := True\<rparr>)\<rparr>))) 0)
     = [Notification ''__default::foo'' Undefined] \<and>
   ''__default::foo'' \<noteq> ''foo''"
  by (simp add: build_scope_def notify_def new_world_def new_chan_def postMessage_def scopeMethod_def)

text \<open>
  C8, amended: a configured scope never contains \<^verbatim>\<open>::\<close> (\<^verbatim>\<open>build\<close> rejects it), the
  scope of a channel built without one is \<^verbatim>\<open>__default\<close>, and the method name of every
  request that \<^verbatim>\<open>call\<close> sends and of every notification that \<^verbatim>\<open>notify\<close> sends is the
  scope, then \<^verbatim>\<open>::\<close>, then the method, also for the default scope.
\<close>

theorem wire_method_is_scoped:
  "(build_scope sc = Inr s \<longrightarrow>
      \<not> has_colons s \<and> (sc = Undefined \<longrightarrow> s = ''__default'') \<and> (\<forall>x. sc = Str x \<longrightarrow> s = x))
   \<and> (call env c (Some m) h w = Some (None, h', w') \<longrightarrow>
        (\<exists>cbs. sends (chans w c) (chans w' c)
           (Request (s_curTranId w) (cfg_scope (chans w c) @ ''::'' @ str_of (c_method m)) (c_params m) cbs)))
   \<and> (notify c (Some n) w = (None, w'') \<longrightarrow>
        sends (chans w c) (chans w'' c)
           (Notification (cfg_scope (chans w c) @ ''::'' @ str_of (n_method n)) (n_params n)))"
proof -
  have a: "build_scope sc = Inr s \<longrightarrow>
      \<not> has_colons s \<and> (sc = Undefined \<longrightarrow> s = ''__default'') \<and> (\<forall>x. sc = Str x \<longrightarrow> s = x)"
    using build_scope_ok by blast
  have b: "call env c (Some m) h w = Some (None, h', w') \<longrightarrow>
        (\<exists>cbs. sends (chans w c) (chans w' c)
           (Request (s_curTranId w) (cfg_scope (chans w c) @ ''::'' @ str_of (c_method m)) (c_params m) cbs))"
  proof
    assume "call env c (Some m) h w = Some (None, h', w')"
    then show "\<exists>cbs. sends (chans w c) (chans w' c)
           (Request (s_curTranId w) (cfg_scope (chans w c) @ ''::'' @ str_of (c_method m)) (c_params m) cbs)"
    proof (cases rule: call_sent)
      case (1 st)
      from 1(9) show ?thesis
        by (auto simp: sends_def postMessage_def scopeMethod_def)
    qed
  qed
  have c: "notify c (Some n) w = (None, w'') \<longrightarrow>
        sends (chans w c) (chans w'' c)
           (Notification (cfg_scope (chans w c) @ ''::'' @ str_of (n_method n)) (n_params n))"
  proof
    assume "notify c (Some n) w = (None, w'')"
    from notify_sent[OF this] show "sends (chans w c) (chans w'' c)
           (Notification (cfg_scope (chans w c) @ ''::'' @ str_of (n_method n)) (n_params n))"
      by (simp add: sends_def postMessage_def scopeMethod_def)
  qed
  show ?thesis
    by (rule conjI[OF a conjI[OF b c]])
qed

theorem wire_method_is_scoped_witness:
  "\<not> has_colons ''chat'' \<and>
   (\<exists>h' w'. call \<lparr>client_fn = (\<lambda>f args. ([], Returns VUndef)),
          json_stringify = (\<lambda>v. Returns VUndef), to_string = (\<lambda>v. Returns (VStr [])),
          builtin = (\<lambda>k args. Returns VUndef)\<rparr>
              0 (Some \<lparr>c_method = Str ''foo'', c_params = Undefined, c_success = Fn 1,
                 c_error = Undefined, c_timeout = None\<rparr>) [] (new_world 1 ''chat'') = Some (None, h', w') \<and>
       (\<exists>cbs. sends (new_chan ''chat'') (chans w' 0) (Request 1 ''chat::foo'' Undefined cbs))) \<and>
   (\<exists>w''. notify 0 (Some \<lparr>n_method = Str ''foo'', n_params = Undefined\<rparr>) (new_world 1 ''chat'') = (None, w'') \<and>
       sends (new_chan ''chat'') (chans w'' 0) (Notification ''chat::foo'' Undefined))"
proof -
  let ?A = "\<lparr>c_method = Str ''foo'', c_params = Undefined, c_success = Fn 1,
                 c_error = Undefined, c_timeout = None\<rparr>"
  let ?N = "\<lparr>n_method = Str ''foo'', n_params = Undefined\<rparr>"
  let ?W = "new_world 1 ''chat''"
  let ?E = "\<lparr>client_fn = (\<lambda>f args. ([], Returns VUndef)),
          json_stringify = (\<lambda>v. Returns VUndef), to_string = (\<lambda>v. Returns (VStr [])),
          builtin = (\<lambda>k args. Returns VUndef)\<rparr>"
  have b: "build_scope (Str ''chat'') = Inr ''chat''"
    by (simp add: build_scope_def)
  obtain h' w' where c: "call ?E 0 (Some ?A) [] ?W = Some (None, h', w')"
    by (simp add: call_def prune_start_def Let_def)
  obtain w'' where n: "notify 0 (Some ?N) ?W = (None, w'')"
    by (simp add: notify_def)
  note t = wire_method_is_scoped[where sc="Str ''chat''" and s="''chat''" and env="?E" and c=0 and m="?A" and h="[]"
      and w="?W" and h'=h' and w'=w' and n="?N" and w''=w'']
  have s: "cfg_scope (chans ?W 0) = ''chat''" "chans ?W 0 = new_chan ''chat''" "s_curTranId ?W = 1"
    by (simp_all add: new_world_def new_chan_def)
  from t[THEN conjunct1, THEN mp, OF b] have 1: "\<not> has_colons ''chat''" by simp
  from t[THEN conjunct2, THEN conjunct1, THEN mp, OF c]
  have 2: "\<exists>cbs. sends (new_chan ''chat'') (chans w' 0) (Request 1 ''chat::foo'' Undefined cbs)"
    by (simp add: s new_chan_def)
  from t[THEN conjunct2, THEN conjunct2, THEN mp, OF n]
  have 3: "sends (new_chan ''chat'') (chans w'' 0) (Notification ''chat::foo'' Undefined)"
    by (simp add: s new_chan_def)
  from 1 2 3 c n show ?thesis by blast
qed

subsection \<open>What a handler throws\<close>

lemma normalize_string: "normalize_exception env (VStr s) = Inr (VStr ''runtime_error'', VStr s)"
  by (simp add: normalize_exception_def classify_exception_def)

lemma normalize_pair:
  "msg \<noteq> VNull \<Longrightarrow>
   normalize_exception env (VObj (ArrayObject 2) [(''0'', err), (''1'', msg)]) = Inr (err, msg)"
  by (simp add: normalize_exception_def classify_exception_def)

lemma normalize_error_instance:
  "msg \<noteq> VNull \<Longrightarrow>
   normalize_exception env (VObj (ErrorObject name) [(''message'', msg)]) = Inr (VStr name, msg)"
  by (simp add: normalize_exception_def classify_exception_def)

lemma normalize_error_fields:
  "normalize_exception env (VObj PlainObject [(''error'', VStr err), (''message'', VStr msg)])
     = Inr (VStr err, VStr msg)"
  by (simp add: normalize_exception_def classify_exception_def Let_def)

lemma normalize_number:
  "json_stringify env (VNum n) = Returns (VStr s) \<Longrightarrow>
   normalize_exception env (VNum n) = Inr (VStr ''runtime_error'', VStr s)"
  by (simp add: normalize_exception_def classify_exception_def render_exception_def)

text \<open>
  C4: every value a request handler throws becomes an error and a message that go out
  as an ErrorResponse. The four shapes the claim lists do (the lemmas above), but a
  handler that throws \<^verbatim>\<open>null\<close> gets no rendering: the \<^verbatim>\<open>catch\<close> block reads \<^verbatim>\<open>e.error\<close> of
  \<^verbatim>\<open>null\<close>, the \<^verbatim>\<open>TypeError\<close> leaves \<^verbatim>\<open>onMessage\<close>, nothing is posted and the transaction
  stays in \<^verbatim>\<open>inTbl\<close>.
\<close>

theorem thrown_null_escapes:
  "normalize_exception env VNull = Inl type_error \<and>
   (case onMessage (env\<lparr>client_fn := (\<lambda>f args. ([], Throws VNull))\<rparr>) 0 ''https://a.example'' (Some ''boom'')
           \<lparr>m_id = Some 7, m_method = Some ''s::boom'', m_params = VUndef, m_callbacks = None,
             m_callback = None, m_error = None, m_message = VUndef, m_result = VUndef\<rparr>
           ((new_world 1 ''s'')\<lparr>chans := (\<lambda>c. (new_chan ''s'')\<lparr>regTbl := [''boom'' \<mapsto> 1], ready := True\<rparr>)\<rparr>) of
      (x, w') \<Rightarrow> x = Some type_error \<and> posted (chans w' 0) = [] \<and> 7 \<in> inTbl (chans w' 0))"
  by (simp add: normalize_exception_def classify_exception_def onMessage_def id_of_def handle_request_def
      run_handler_def lookup_handler_def call_handler_def handler_events_def new_world_def new_chan_def Let_def)






subsection \<open>Callbacks in the params of a call\<close>

lemma split_slash_nonempty: "split_slash s \<noteq> []"
  by (induction s) (auto split: list.splits)

lemma set_callback_shape:
  assumes "items \<noteq> []" "set_callback f items (VObj cl ps) = Inr obj'"
  shows "\<exists>x. obj' = VObj cl (AList.update (hd items) x ps) \<and> (tl items = [] \<longrightarrow> x = f)"
proof (cases items)
  case Nil
  with assms(1) show ?thesis by simp
next
  case (Cons k rest)
  show ?thesis
  proof (cases rest)
    case Nil
    with Cons assms(2) show ?thesis by auto
  next
    case (Cons k' rest')
    with \<open>items = k # rest\<close> assms(2) show ?thesis
      by (auto simp: Let_def split: sum.splits)
  qed
qed

lemma make_callbacks_prop:
  assumes "make_callbacks i cbs paths (VObj cl ps) = Inr params'"
    and "split_slash k = [k]"
    and "\<forall>p \<in> set paths. hd (split_slash p) = k \<longrightarrow> p = k"
  shows "\<exists>ps'. params' = VObj cl ps' \<and>
     (if k \<in> set paths then map_of ps' k = Some (VFn (RemoteCallback i cbs k))
      else map_of ps' k = map_of ps k)"
  using assms
proof (induction paths arbitrary: ps)
  case Nil
  then show ?case by auto
next
  case (Cons path paths)
  let ?f = "VFn (RemoteCallback i cbs path)"
  from Cons.prems(1) obtain obj1 where
    o1: "set_callback ?f (split_slash path) (VObj cl ps) = Inr obj1"
    and rest: "make_callbacks i cbs paths obj1 = Inr params'"
    by (auto split: sum.splits)
  from set_callback_shape[OF split_slash_nonempty o1] obtain x where
    x: "obj1 = VObj cl (AList.update (hd (split_slash path)) x ps)"
      "tl (split_slash path) = [] \<longrightarrow> x = ?f"
    by blast
  let ?ps1 = "AList.update (hd (split_slash path)) x ps"
  from Cons.prems(3) have tl: "\<forall>p \<in> set paths. hd (split_slash p) = k \<longrightarrow> p = k" by simp
  from Cons.IH[OF rest[unfolded x(1)] Cons.prems(2) tl] obtain ps' where
    ps': "params' = VObj cl ps'"
      "if k \<in> set paths then map_of ps' k = Some (VFn (RemoteCallback i cbs k))
       else map_of ps' k = map_of ?ps1 k"
    by blast
  show ?case
  proof (cases "k \<in> set paths")
    case True
    with ps' show ?thesis by auto
  next
    case notin: False
    show ?thesis
    proof (cases "path = k")
      case True
      with x(2) Cons.prems(2) have "x = VFn (RemoteCallback i cbs k)" by simp
      with True Cons.prems(2) have "map_of ?ps1 k = Some (VFn (RemoteCallback i cbs k))"
        by (simp add: update_conv')
      with ps' notin True show ?thesis by auto
    next
      case False
      with Cons.prems(3) have "hd (split_slash path) \<noteq> k" by auto
      then have "map_of ?ps1 k = map_of ps k"
        by (simp add: update_conv')
      with ps' notin False show ?thesis by auto
    qed
  qed
qed

lemma call_extracts:
  assumes "call env c (Some m) h w = Some (None, h', w')" "c_params m = Ref a" "plain h"
    and "map_of (props h a) k = Some v" "typeof v = TFunction"
  shows "\<exists>cbs. sends (chans w c) (chans w' c)
            (Request (s_curTranId w) (scopeMethod (cfg_scope (chans w c)) (str_of (c_method m)))
               (Ref a) (Some cbs)) \<and> k \<in> set cbs"
    and "walk h' a p = Some b \<Longrightarrow> fn_free h' b"
proof -
  from assms(1) obtain st where
    st: "pruneFunctions env (Suc (length h)) [] (c_params m) (prune_start h) = Some (None, st)"
    and h': "h' = objs st"
    and ch: "chans w' = (chans w)(c := postMessage
            (Request (s_curTranId w) (scopeMethod (cfg_scope (chans w c)) (str_of (c_method m))) (c_params m)
               (if callbackNames st \<noteq> [] then Some (callbackNames st) else None))
            False
            ((chans w c)\<lparr>outTbl := (outTbl (chans w c))(s_curTranId w \<mapsto>
               \<lparr>e_callbacks = callbacks st, e_error = c_error m, e_success = c_success m\<rparr>)\<rparr>))"
    by (rule call_sent)
  let ?st1 = "(prune_start h)\<lparr>seen := seen (prune_start h) @ [Ref a]\<rparr>"
  have pl: "plain (objs (prune_start h))" "plain (objs ?st1)"
    using assms(3) by (simp_all add: prune_start_def)
  from st[unfolded assms(2)]
  have keys: "prune_keys env (length h) [] a (map fst (props h a)) ?st1 = Some (None, st)"
    by (cases rule: pruneFunctions_Suc_cases) (simp_all add: prune_start_def)
  have "k \<in> set (map fst (props h a))"
    using assms(4) by (rule map_of_key)
  from prune_keys_records[OF keys pl(2) this _ assms(5)] assms(4)
  have k: "k \<in> set (callbackNames st)"
    by (simp add: prune_start_def)
  then have ne: "callbackNames st \<noteq> []" by auto
  from ch ne assms(2) k show "\<exists>cbs. sends (chans w c) (chans w' c)
            (Request (s_curTranId w) (scopeMethod (cfg_scope (chans w c)) (str_of (c_method m)))
               (Ref a) (Some cbs)) \<and> k \<in> set cbs"
    by (auto simp: sends_def postMessage_def)
  show "fn_free h' b" if "walk h' a p = Some b"
  proof -
    have g: "grows (prune_start h) st" by (rule prune_grows(1)[OF st])
    then have "shrinks h h'" by (simp add: grows_def h' prune_start_def)
    from walk_shrinks[OF this] that have wk: "walk (objs (prune_start h)) a p = Some b"
      by (simp add: prune_start_def)
    from prune_tree(1)[OF st pl(1) assms(2)] wk have "Ref b \<in> set (seen st)" "Ref b \<notin> set (seen (prune_start h))"
      by blast+
    from prune_fn_free(1)[OF st pl(1) this] h' show ?thesis by simp
  qed
qed

lemma run_handler_events:
  assumes "(if cbs \<noteq> [] then make_callbacks i cbs cbs (m_params m) else Inr (m_params m)) = Inr params"
  shows "snd (snd (run_handler env (Bound h) origin meth m i cbs ch))
     = [HandlerCalled meth [VObj PlainObject [(''origin'', VStr origin)], params]]"
  using assms unfolding run_handler_def handler_events_def Let_def
  by (simp split: prod.splits option.splits outcome.splits)

lemma handle_request_events:
  assumes "regTbl ch meth = Some h"
    and "(if cbs \<noteq> [] then make_callbacks i cbs cbs (m_params m) else Inr (m_params m)) = Inr params"
    and "cbs = (case m_callbacks m of Some l \<Rightarrow> l | None \<Rightarrow> [])"
  shows "snd (snd (handle_request env origin meth m i ch))
     = [HandlerCalled meth [VObj PlainObject [(''origin'', VStr origin)], params]]"
proof -
  let ?ch0 = "ch\<lparr>inTbl := insert i (inTbl ch)\<rparr>"
  obtain x ch1 evs where r: "run_handler env (Bound h) origin meth m i cbs ?ch0 = (x, ch1, evs)"
    by (cases "run_handler env (Bound h) origin meth m i cbs ?ch0") auto
  with run_handler_events[OF assms(2), of env h origin meth ?ch0]
  have evs: "evs = [HandlerCalled meth [VObj PlainObject [(''origin'', VStr origin)], params]]"
    by simp
  from assms(1) have lk: "lookup_handler (regTbl ?ch0) meth = Some (Bound h)"
    by (simp add: lookup_handler_def)
  from lk assms(3) r evs show ?thesis
    unfolding handle_request_def Let_def
    by (simp split: option.splits sum.splits prod.splits)
qed


text \<open>
  The usual case of C2: the params are objects without a property \<^verbatim>\<open>hasOwnProperty\<close> of
  their own, the id of the request is not \<open>0\<close>, and no other callback path goes through
  \<^verbatim>\<open>onProgress\<close>.
\<close>

lemma callback_roundtrip:
  "(call env0 c (Some m) h w = Some (None, h', w') \<and> c_params m = Ref a \<and> plain h \<and>
    map_of (props h a) ''onProgress'' = Some (Fn f)
    \<longrightarrow> (\<exists>cbs. sends (chans w c) (chans w' c)
            (Request (s_curTranId w) (scopeMethod (cfg_scope (chans w c)) (str_of (c_method m)))
               (Ref a) (Some cbs)) \<and> ''onProgress'' \<in> set cbs)
        \<and> (\<forall>p b. walk h' a p = Some b \<longrightarrow> fn_free h' b))
   \<and> (id_of rq = i \<and> i \<noteq> 0 \<and> meth \<noteq> [] \<and> regTbl (chans v d) meth = Some g \<and>
       m_callbacks rq = Some cbs \<and> ''onProgress'' \<in> set cbs \<and>
       (\<forall>p \<in> set cbs. hd (split_slash p) = ''onProgress'' \<longrightarrow> p = ''onProgress'') \<and>
       m_params rq = VObj cl ps \<and> make_callbacks i cbs cbs (m_params rq) = Inr params
    \<longrightarrow> get_prop params ''onProgress'' = Some (VFn (RemoteCallback i cbs ''onProgress''))
        \<and> log (snd (onMessage env d origin (Some meth) rq v))
            = log v @ [HandlerCalled meth [VObj PlainObject [(''origin'', VStr origin)], params]]
        \<and> (\<forall>x ch. i \<in> inTbl ch \<longrightarrow>
              invoke_remote_callback (RemoteCallback i cbs ''onProgress'') x ch
                = (None, postMessage (CallbackInvocation i ''onProgress'' x) False ch)))"
proof -
  have a: "(\<exists>cbs. sends (chans w c) (chans w' c)
            (Request (s_curTranId w) (scopeMethod (cfg_scope (chans w c)) (str_of (c_method m)))
               (Ref a) (Some cbs)) \<and> ''onProgress'' \<in> set cbs)
        \<and> (\<forall>p b. walk h' a p = Some b \<longrightarrow> fn_free h' b)"
    if "call env0 c (Some m) h w = Some (None, h', w')" "c_params m = Ref a" "plain h"
      "map_of (props h a) ''onProgress'' = Some (Fn f)"
  proof
    show "\<exists>cbs. sends (chans w c) (chans w' c)
            (Request (s_curTranId w) (scopeMethod (cfg_scope (chans w c)) (str_of (c_method m)))
               (Ref a) (Some cbs)) \<and> ''onProgress'' \<in> set cbs"
      by (rule call_extracts(1)[OF that]) simp
    show "\<forall>p b. walk h' a p = Some b \<longrightarrow> fn_free h' b"
      by (intro allI impI) (rule call_extracts(2)[OF that], simp_all)
  qed
  have b: "get_prop params ''onProgress'' = Some (VFn (RemoteCallback i cbs ''onProgress''))
        \<and> log (snd (onMessage env d origin (Some meth) rq v))
            = log v @ [HandlerCalled meth [VObj PlainObject [(''origin'', VStr origin)], params]]
        \<and> (\<forall>x ch. i \<in> inTbl ch \<longrightarrow>
              invoke_remote_callback (RemoteCallback i cbs ''onProgress'') x ch
                = (None, postMessage (CallbackInvocation i ''onProgress'' x) False ch))"
    if h: "id_of rq = i" "i \<noteq> 0" "meth \<noteq> []" "regTbl (chans v d) meth = Some g"
       "m_callbacks rq = Some cbs" "''onProgress'' \<in> set cbs"
       "\<forall>p \<in> set cbs. hd (split_slash p) = ''onProgress'' \<longrightarrow> p = ''onProgress''"
       "m_params rq = VObj cl ps" "make_callbacks i cbs cbs (m_params rq) = Inr params"
  proof (intro conjI allI impI)
    have sp: "split_slash ''onProgress'' = [''onProgress'']" by simp
    from make_callbacks_prop[OF h(9)[unfolded h(8)] sp h(7)] h(6)
    show "get_prop params ''onProgress'' = Some (VFn (RemoteCallback i cbs ''onProgress''))"
      by auto
  next
    from h(6) have ne: "cbs \<noteq> []" by auto
    have cb: "cbs = (case m_callbacks rq of Some l \<Rightarrow> l | None \<Rightarrow> [])"
      by (simp add: h(5))
    from ne h(9) have mk: "(if cbs \<noteq> [] then make_callbacks i cbs cbs (m_params rq) else Inr (m_params rq)) = Inr params"
      by simp
    from handle_request_events[OF h(4) mk cb, of env origin] h(1,2,3)
    show "log (snd (onMessage env d origin (Some meth) rq v))
            = log v @ [HandlerCalled meth [VObj PlainObject [(''origin'', VStr origin)], params]]"
      by (auto simp: onMessage_def Let_def split: prod.splits)
  next
    fix x and ch :: chan assume "i \<in> inTbl ch"
    with h(6) show "invoke_remote_callback (RemoteCallback i cbs ''onProgress'') x ch
                = (None, postMessage (CallbackInvocation i ''onProgress'' x) False ch)"
      by (simp add: trans_invoke_def)
  qed
  from a b show ?thesis by blast
qed

text \<open>
  C2: the request of a call with a function at \<^verbatim>\<open>onProgress\<close> lists that path, and the
  receiving side creates a function there before the handler runs. On a page whose
  counter started at \<open>0\<close> (\<^verbatim>\<open>Math.random()\<close> returned a number below one millionth) the
  first call sends its request with the id \<open>0\<close> and the callback path \<^verbatim>\<open>onProgress\<close>. The
  receiving side takes a message whose id is \<open>0\<close> for a notification: the handler runs on
  params without any function at \<^verbatim>\<open>onProgress\<close>, no transaction is opened and nothing is
  ever sent back.
\<close>

theorem request_with_id_zero_gets_no_callback:
  "initial_s_curTranId 0 = 0 \<and>
   (case call env 0 (Some \<lparr>c_method = Str ''foo'', c_params = Ref 0, c_success = Fn 1,
                          c_error = Undefined, c_timeout = None\<rparr>)
           [[(''onProgress'', Fn 7), (''n'', Num 5)]] (new_world (initial_s_curTranId 0) ''chat'') of
      None \<Rightarrow> False
    | Some (x, h', w') \<Rightarrow>
        x = None \<and> h' = [[(''n'', Num 5)]] \<and>
        pendingQueue (chans w' 0) = [Request 0 ''chat::foo'' (Ref 0) (Some [''onProgress''])]) \<and>
   (case onMessage (env\<lparr>client_fn := (\<lambda>f args. ([], Returns VUndef))\<rparr>) 0 ''https://a.example'' (Some ''foo'')
           \<lparr>m_id = Some 0, m_method = Some ''chat::foo'', m_params = VObj PlainObject [(''n'', VNum 5)],
             m_callbacks = Some [''onProgress''], m_callback = None, m_error = None,
             m_message = VUndef, m_result = VUndef\<rparr>
           ((new_world 1 ''chat'')\<lparr>chans := (\<lambda>c. (new_chan ''chat'')\<lparr>regTbl := [''foo'' \<mapsto> 2], ready := True\<rparr>)\<rparr>) of
      (x, w') \<Rightarrow>
        x = None \<and>
        log w' = [HandlerCalled ''foo'' [VObj PlainObject [(''origin'', VStr ''https://a.example'')],
                                        VObj PlainObject [(''n'', VNum 5)]]] \<and>
        posted (chans w' 0) = [] \<and> pendingQueue (chans w' 0) = [] \<and> inTbl (chans w' 0) = {})"
  by (simp add: initial_s_curTranId_def call_def prune_start_def props_def hasOwnProperty_def
      onMessage_def id_of_def lookup_handler_def call_handler_def handler_events_def
      new_world_def new_chan_def postMessage_def scopeMethod_def Let_def)

theorem request_with_id_zero_gets_no_callback_witness:
  "initial_s_curTranId 0 = 0 \<and>
   (case call (\<lparr>client_fn = (\<lambda>f args. ([], Returns VUndef)),
            json_stringify = (\<lambda>v. Returns VUndef), to_string = (\<lambda>v. Returns (VStr [])),
            builtin = (\<lambda>k args. Returns VUndef)\<rparr>)
        0 (Some \<lparr>c_method = Str ''foo'', c_params = Ref 0, c_success = Fn 1,
                          c_error = Undefined, c_timeout = None\<rparr>)
           [[(''onProgress'', Fn 7), (''n'', Num 5)]] (new_world (initial_s_curTranId 0) ''chat'') of
      None \<Rightarrow> False
    | Some (x, h', w') \<Rightarrow>
        x = None \<and> h' = [[(''n'', Num 5)]] \<and>
        pendingQueue (chans w' 0) = [Request 0 ''chat::foo'' (Ref 0) (Some [''onProgress''])]) \<and>
   (case onMessage ((\<lparr>client_fn = (\<lambda>f args. ([], Returns VUndef)),
            json_stringify = (\<lambda>v. Returns VUndef), to_string = (\<lambda>v. Returns (VStr [])),
            builtin = (\<lambda>k args. Returns VUndef)\<rparr>)\<lparr>client_fn := (\<lambda>f args. ([], Returns VUndef))\<rparr>) 0 ''https://a.example'' (Some ''foo'')
           \<lparr>m_id = Some 0, m_method = Some ''chat::foo'', m_params = VObj PlainObject [(''n'', VNum 5)],
             m_callbacks = Some [''onProgress''], m_callback = None, m_error = None,
             m_message = VUndef, m_result = VUndef\<rparr>
           ((new_world 1 ''chat'')\<lparr>chans := (\<lambda>c. (new_chan ''chat'')\<lparr>regTbl := [''foo'' \<mapsto> 2], ready := True\<rparr>)\<rparr>) of
      (x, w') \<Rightarrow>
        x = None \<and>
        log w' = [HandlerCalled ''foo'' [VObj PlainObject [(''origin'', VStr ''https://a.example'')],
                                        VObj PlainObject [(''n'', VNum 5)]]] \<and>
        posted (chans w' 0) = [] \<and> pendingQueue (chans w' 0) = [] \<and> inTbl (chans w' 0) = {})"
  by (rule request_with_id_zero_gets_no_callback
      [where env = "\<lparr>client_fn = (\<lambda>f args. ([], Returns VUndef)),
            json_stringify = (\<lambda>v. Returns VUndef), to_string = (\<lambda>v. Returns (VStr [])),
            builtin = (\<lambda>k args. Returns VUndef)\<rparr>"])

subsection \<open>Every transaction is resolved at most once\<close>

lemma resolutions_append [simp]: "resolutions i (xs @ ys) = resolutions i xs + resolutions i ys"
  by (simp add: resolutions_def)

lemma resolutions_simps [simp]:
  "resolutions i [] = 0"
  "resolutions i [SuccessCalled j args] = (if j = i then 1 else 0)"
  "resolutions i [ErrorCalled j args] = (if j = i then 1 else 0)"
  "resolutions i [CallbackCalled j p args] = 0"
  "resolutions i [HandlerCalled m args] = 0"
  by (simp_all add: resolutions_def)

lemma quiet_refl: "quiet w w"
  by (simp add: quiet_def)

lemma consistent_quiet:
  assumes "consistent env w" "quiet w w'"
  shows "consistent env w'"
proof -
  from assms(2) obtain evs where q: "s_curTranId w' = s_curTranId w"
    "\<And>c. outTbl (chans w' c) = outTbl (chans w c)"
    "log w' = log w @ evs" "\<And>i. resolutions i evs = 0"
    unfolding quiet_def by blast
  from assms(1) show ?thesis
    unfolding consistent_def q(1) q(2) q(3) resolutions_append q(4) by simp
qed

lemma consistent_resolved:
  assumes "consistent env w" "resolved c i w w'"
  shows "consistent env w'"
proof -
  from assms(2) obtain evs where r: "s_curTranId w' = s_curTranId w"
    "outTbl (chans w c) i \<noteq> None"
    "\<And>c' j. outTbl (chans w' c') j = (if c' = c \<and> j = i then None else outTbl (chans w c') j)"
    "log w' = log w @ evs" "resolutions i evs \<le> 1" "\<And>j. j \<noteq> i \<Longrightarrow> resolutions j evs = 0"
    unfolding resolved_def by blast
  from assms(1) have c1: "\<And>c i e. outTbl (chans w c) i = Some e \<Longrightarrow>
        i < s_curTranId w \<and> resolutions i (log w) = 0 \<and>
        returns_normally env (e_success e) \<and> returns_normally env (e_error e) \<and>
        (\<forall>c'. outTbl (chans w c') i \<noteq> None \<longrightarrow> c' = c)"
    and c2: "\<And>i. resolutions i (log w) \<le> 1"
    and c3: "\<And>i. 0 < resolutions i (log w) \<Longrightarrow> i < s_curTranId w"
    unfolding consistent_def by blast+
  from r(2) obtain e0 where e0: "outTbl (chans w c) i = Some e0" by auto
  note i0 = c1[OF e0]
  show ?thesis
    unfolding consistent_def
  proof (intro conjI allI impI)
    fix c' j e assume a: "outTbl (chans w' c') j = Some e"
    then have old: "outTbl (chans w c') j = Some e" and ne: "\<not> (c' = c \<and> j = i)"
      by (auto simp: r(3) split: if_splits)
    have "j \<noteq> i"
    proof
      assume "j = i"
      with old i0 have "c' = c" by auto
      with ne \<open>j = i\<close> show False by simp
    qed
    with c1[OF old] r(6)[of j]
    show "j < s_curTranId w'" "resolutions j (log w') = 0"
      "returns_normally env (e_success e)" "returns_normally env (e_error e)"
      by (simp_all add: r(1) r(4))
    fix c'' assume "outTbl (chans w' c'') j \<noteq> None"
    then have "outTbl (chans w c'') j \<noteq> None"
      by (auto simp: r(3) split: if_splits)
    with c1[OF old] show "c'' = c'" by blast
  next
    fix j show "resolutions j (log w') \<le> 1"
    proof (cases "j = i")
      case True
      with i0 r(5) show ?thesis by (simp add: r(4))
    next
      case False
      with c2[of j] r(6)[of j] show ?thesis by (simp add: r(4))
    qed
  next
    fix j assume "0 < resolutions j (log w')"
    show "j < s_curTranId w'"
    proof (cases "j = i")
      case True
      with i0 show ?thesis by (simp add: r(1))
    next
      case False
      with \<open>0 < resolutions j (log w')\<close> r(6)[of j] c3[of j] show ?thesis
        by (simp add: r(1) r(4))
    qed
  qed
qed

lemma trans_outTbl:
  "trans_invoke i cbs n v ch = (x, ch') \<Longrightarrow> outTbl ch' = outTbl ch"
  "trans_error i err msg ch = (x, ch') \<Longrightarrow> outTbl ch' = outTbl ch"
  "trans_complete i v ch = (x, ch') \<Longrightarrow> outTbl ch' = outTbl ch"
  by (auto simp: trans_invoke_def trans_error_def trans_complete_def split: if_splits)

lemma run_op_outTbl: "run_op i cbs op ts ch = (x, ts', ch') \<Longrightarrow> outTbl ch' = outTbl ch"
  by (cases op) (auto split: prod.splits dest: trans_outTbl)

lemma run_ops_outTbl: "outTbl (snd (snd (run_ops i cbs ops ts ch))) = outTbl ch"
proof (induction ops arbitrary: ts ch)
  case Nil
  then show ?case by simp
next
  case (Cons op ops)
  obtain x ts' ch' where r: "run_op i cbs op ts ch = (x, ts', ch')"
    by (cases "run_op i cbs op ts ch") auto
  from run_op_outTbl[OF r] have o: "outTbl ch' = outTbl ch" .
  show ?case
  proof (cases x)
    case None
    with r Cons.IH[of ts' ch'] o show ?thesis by simp
  next
    case (Some e)
    with r o show ?thesis by simp
  qed
qed

lemma run_handler_frame:
  assumes "run_handler env h origin meth m i cbs ch = (x, ch', evs)"
  shows "outTbl ch' = outTbl ch \<and> (\<forall>j. resolutions j evs = 0)"
proof (cases "if cbs \<noteq> [] then make_callbacks i cbs cbs (m_params m) else Inr (m_params m)")
  case (Inl e)
  with assms show ?thesis by (simp add: run_handler_def)
next
  case (Inr params)
  let ?args = "[VObj PlainObject [(''origin'', VStr origin)], params]"
  obtain ops out where cf: "call_handler env h meth ?args = (ops, out)"
    by (cases "call_handler env h meth ?args") auto
  have ev: "resolutions j (handler_events h meth ?args) = 0" for j
    by (cases h) (simp_all add: handler_events_def)
  obtain y ts ch1 where ro: "run_ops i cbs ops \<lparr>shouldDelayReturn = False, completed = False\<rparr> ch = (y, ts, ch1)"
    by (cases "run_ops i cbs ops \<lparr>shouldDelayReturn = False, completed = False\<rparr> ch") auto
  with run_ops_outTbl[of i cbs ops "\<lparr>shouldDelayReturn = False, completed = False\<rparr>" ch]
  have o1: "outTbl ch1 = outTbl ch" by simp
  from assms Inr cf ro o1 ev show ?thesis
    unfolding run_handler_def Let_def
    by (auto split: option.splits outcome.splits prod.splits if_splits dest: trans_outTbl(3))
qed

lemma handle_request_frame:
  assumes "handle_request env origin meth m i ch = (x, ch', evs)"
  shows "outTbl ch' = outTbl ch \<and> (\<forall>j. resolutions j evs = 0)"
proof (cases "lookup_handler (regTbl ch) meth")
  case None
  with assms show ?thesis
    unfolding handle_request_def Let_def by (auto split: prod.splits dest: trans_outTbl(2))
next
  case (Some h)
  let ?ch0 = "ch\<lparr>inTbl := insert i (inTbl ch)\<rparr>"
  let ?cbs = "case m_callbacks m of Some l \<Rightarrow> l | None \<Rightarrow> []"
  obtain y ch1 evs1 where rh: "run_handler env h origin meth m i ?cbs ?ch0 = (y, ch1, evs1)"
    by (cases "run_handler env h origin meth m i ?cbs ?ch0") auto
  from run_handler_frame[OF rh] have f: "outTbl ch1 = outTbl ch" "\<forall>j. resolutions j evs1 = 0"
    by simp_all
  from assms Some rh f show ?thesis
    unfolding handle_request_def Let_def
    by (auto split: option.splits sum.splits prod.splits dest: trans_outTbl(2))
qed

lemma call_client_cases:
  assumes "call_client env ev f args w = (out, w')"
  obtains (fn) n where "f = Fn n" "out = snd (client_fn env n args)" "w' = w\<lparr>log := log w @ [ev]\<rparr>"
  | (nofn) "\<forall>n. f \<noteq> Fn n" "out = Throws type_error" "w' = w"
  using assms by (cases f) (auto simp: call_client_def)

lemma quiet_log:
  "(\<forall>j. resolutions j evs = 0) \<Longrightarrow> quiet w (w\<lparr>log := log w @ evs\<rparr>)"
  by (auto simp: quiet_def)

lemma evict_resolved:
  assumes "outTbl (chans w c) i \<noteq> None" "chans w1 = chans w" "s_curTranId w1 = s_curTranId w"
    and "log w1 = log w @ evs" "resolutions i evs \<le> 1" "\<forall>j. j \<noteq> i \<longrightarrow> resolutions j evs = 0"
  shows "resolved c i w (evict c i w1)"
  unfolding resolved_def using assms by (auto simp: evict_def)

text \<open>The common part of the response branch and of the timer: a callback of the entry is
  called (or none is), and the entry is evicted if the call returns.\<close>

lemma resolution_effect:
  assumes "outTbl (chans w c) i = Some e" "returns_normally env f"
    and "call_client env ev f args w = (out, w1)"
    and "resolutions i [ev] \<le> 1" "\<forall>j. j \<noteq> i \<longrightarrow> resolutions j [ev] = 0"
  shows "(case out of Throws x \<Rightarrow> quiet w w1 | Returns v \<Rightarrow> resolved c i w (evict c i w1))"
  using assms(3)
proof (cases rule: call_client_cases)
  case (fn n)
  with assms(2) obtain v where v: "out = Returns v"
    unfolding returns_normally_def by blast
  have "resolved c i w (evict c i w1)"
    by (rule evict_resolved[where evs="[ev]"]) (use assms fn in simp_all)
  with v show ?thesis by simp
next
  case nofn
  then show ?thesis by (simp add: quiet_refl)
qed

lemma onMessage_effect:
  assumes "consistent env w" "onMessage env c origin meth m w = (x, w')"
  shows "quiet w w' \<or> resolved c (id_of m) w w'"
proof -
  let ?i = "id_of m"
  let ?me = "case meth of Some s \<Rightarrow> s | None \<Rightarrow> []"
  let ?cb = "case m_callback m of Some s \<Rightarrow> s | None \<Rightarrow> []"
  let ?err = "case m_error m of Some s \<Rightarrow> s | None \<Rightarrow> []"
  consider (request) "?i \<noteq> 0" "?me \<noteq> []"
    | (callback) "?i \<noteq> 0" "?me = []" "?cb \<noteq> []"
    | (response) "?i \<noteq> 0" "?me = []" "?cb = []"
    | (notification) "?i = 0" "?me \<noteq> []"
    | (nothing) "?i = 0" "?me = []"
    by blast
  then show ?thesis
  proof cases
    case request
    obtain y ch' evs where hr: "handle_request env origin ?me m ?i (chans w c) = (y, ch', evs)"
      by (cases "handle_request env origin ?me m ?i (chans w c)") auto
    from handle_request_frame[OF hr] have f: "outTbl ch' = outTbl (chans w c)" "\<forall>j. resolutions j evs = 0"
      by simp_all
    from assms(2) request hr have "w' = w\<lparr>chans := (chans w)(c := ch'), log := log w @ evs\<rparr>"
      by (simp add: onMessage_def Let_def)
    with f have "quiet w w'" by (auto simp: quiet_def)
    then show ?thesis ..
  next
    case callback
    have "quiet w w'"
    proof (cases "outTbl (chans w c) ?i")
      case None
      with assms(2) callback show ?thesis by (simp add: onMessage_def Let_def quiet_refl)
    next
      case (Some e)
      show ?thesis
      proof (cases "map_of (e_callbacks e) ?cb")
        case None
        with assms(2) callback Some have "w' = w"
          by (auto simp: onMessage_def Let_def split: option.splits inherited.splits outcome.splits)
        then show ?thesis by (simp add: quiet_refl)
      next
        case f: (Some f)
        show ?thesis
        proof (cases "truthy f")
          case False
          with assms(2) callback Some f show ?thesis by (simp add: onMessage_def Let_def quiet_refl)
        next
          case True
          obtain out w1 where cc: "call_client env (CallbackCalled ?i ?cb [m_params m]) f [m_params m] w = (out, w1)"
            by (cases "call_client env (CallbackCalled ?i ?cb [m_params m]) f [m_params m] w") auto
          from assms(2) callback Some f True cc have "w' = w1"
            by (auto simp: onMessage_def Let_def split: outcome.splits)
          with cc show ?thesis
            by (cases rule: call_client_cases) (simp_all add: quiet_refl quiet_log)
        qed
      qed
    qed
    then show ?thesis ..
  next
    case response
    show ?thesis
    proof (cases "outTbl (chans w c) ?i")
      case None
      with assms(2) response show ?thesis by (simp add: onMessage_def Let_def quiet_refl)
    next
      case (Some e)
      from assms(1) Some have pol: "returns_normally env (e_success e)" "returns_normally env (e_error e)"
        unfolding consistent_def by blast+
      let ?call = "(if ?err \<noteq> [] then
                         (if truthy (e_error e) then
                            call_client env (ErrorCalled ?i [VStr ?err, m_message m])
                              (e_error e) [VStr ?err, m_message m] w
                          else (Returns VUndef, w))
                       else if m_result m \<noteq> VUndef then
                         call_client env (SuccessCalled ?i [m_result m]) (e_success e) [m_result m] w
                       else call_client env (SuccessCalled ?i []) (e_success e) [] w)"
      obtain out w1 where cc: "?call = (out, w1)"
        by (cases ?call) auto
      from assms(2) response Some cc
      have res: "(x, w') = (case out of Throws x \<Rightarrow> (Some x, w1) | Returns v \<Rightarrow> (None, evict c ?i w1))"
        by (simp add: onMessage_def Let_def split: outcome.splits)
      have "(case out of Throws x \<Rightarrow> quiet w w1 | Returns v \<Rightarrow> resolved c ?i w (evict c ?i w1))"
      proof (cases "?err \<noteq> [] \<and> \<not> truthy (e_error e)")
        case True
        with cc have "out = Returns VUndef" "w1 = w" by simp_all
        moreover have "resolved c ?i w (evict c ?i w)"
          by (rule evict_resolved[where evs="[]"]) (use Some in simp_all)
        ultimately show ?thesis by simp
      next
        case False
        then consider (err) "?err \<noteq> []" "truthy (e_error e)"
          | (val) "?err = []" "m_result m \<noteq> VUndef" | (noval) "?err = []" "m_result m = VUndef"
          by blast
        then show ?thesis
        proof cases
          case err
          with cc have "call_client env (ErrorCalled ?i [VStr ?err, m_message m])
                              (e_error e) [VStr ?err, m_message m] w = (out, w1)" by simp
          from resolution_effect[OF Some pol(2) this] show ?thesis by simp
        next
          case val
          with cc have "call_client env (SuccessCalled ?i [m_result m]) (e_success e) [m_result m] w = (out, w1)"
            by simp
          from resolution_effect[OF Some pol(1) this] show ?thesis by simp
        next
          case noval
          with cc have "call_client env (SuccessCalled ?i []) (e_success e) [] w = (out, w1)"
            by simp
          from resolution_effect[OF Some pol(1) this] show ?thesis by simp
        qed
      qed
      with res show ?thesis by (cases out) auto
    qed
  next
    case notification
    have "quiet w w'"
    proof (cases "lookup_handler (regTbl (chans w c)) ?me")
      case None
      with assms(2) notification show ?thesis by (simp add: onMessage_def Let_def quiet_refl)
    next
      case (Some h)
      let ?args = "[VObj PlainObject [(''origin'', VStr origin)], m_params m]"
      have ev: "\<forall>j. resolutions j (handler_events h ?me ?args) = 0"
        by (cases h) (simp_all add: handler_events_def)
      from assms(2) notification Some have "w' = w\<lparr>log := log w @ handler_events h ?me ?args\<rparr>"
        by (auto simp: onMessage_def Let_def split: prod.splits list.splits outcome.splits)
      with ev show ?thesis by (simp add: quiet_log)
    qed
    then show ?thesis ..
  next
    case nothing
    with assms(2) show ?thesis by (simp add: onMessage_def Let_def quiet_refl)
  qed
qed

lemma onMessage_consistent:
  "consistent env w \<Longrightarrow> consistent env (snd (onMessage env c origin meth m w))"
  using onMessage_effect[of env w c origin meth m] consistent_quiet consistent_resolved
  by (metis prod.collapse)

lemma s_onMessage_consistent:
  assumes "consistent env w"
  shows "consistent env (snd (s_onMessage env e w))"
  unfolding s_onMessage_def Let_def
  using assms onMessage_consistent[OF assms]
  by (auto split: option.splits sum.splits)

lemma consistent_timers: "consistent env (w\<lparr>timers := ts\<rparr>) = consistent env w"
  by (simp add: consistent_def)

lemma timer_fires_effect:
  assumes "consistent env w" "timer_fires env t w = (x, w')"
  shows "quiet w w' \<or> resolved (t_chan t) (t_transId t) w w'"
proof (cases "outTbl (chans w (t_chan t)) (t_transId t)")
  case None
  with assms(2) show ?thesis by (simp add: timer_fires_def quiet_refl)
next
  case (Some e)
  from assms(1) Some have pol: "returns_normally env (e_error e)"
    unfolding consistent_def by blast
  let ?args = "[VStr ''timeout_error'', VStr (timeout_message (t_timeout t) (t_method t))]"
  show ?thesis
  proof (cases "truthy (e_error e)")
    case False
    with assms(2) Some have "w' = evict (t_chan t) (t_transId t) w"
      by (simp add: timer_fires_def Let_def)
    moreover have "resolved (t_chan t) (t_transId t) w (evict (t_chan t) (t_transId t) w)"
      by (rule evict_resolved[where evs="[]"]) (use Some in simp_all)
    ultimately show ?thesis by simp
  next
    case True
    obtain out w1 where cc: "call_client env (ErrorCalled (t_transId t) ?args) (e_error e) ?args w = (out, w1)"
      by (cases "call_client env (ErrorCalled (t_transId t) ?args) (e_error e) ?args w") auto
    from assms(2) Some True cc
    have res: "(x, w') = (case out of Throws x \<Rightarrow> (Some x, w1)
        | Returns v \<Rightarrow> (None, evict (t_chan t) (t_transId t) w1))"
      by (simp add: timer_fires_def Let_def split: outcome.splits)
    from resolution_effect[OF Some pol cc]
    have "(case out of Throws x \<Rightarrow> quiet w w1
        | Returns v \<Rightarrow> resolved (t_chan t) (t_transId t) w (evict (t_chan t) (t_transId t) w1))"
      by simp
    with res show ?thesis by (cases out) auto
  qed
qed

lemma call_threw: "call env c m h w = Some (Some e, h', w') \<Longrightarrow> w' = w"
  unfolding call_def
  by (auto split: option.splits if_splits prod.splits simp: Let_def simp del: pruneFunctions.simps)

lemma call_consistent:
  assumes "consistent env w" "polite env (DoCall c m h)"
  shows "consistent env (step env (DoCall c m h) w)"
proof (cases "call env c m h w")
  case None
  with assms(1) show ?thesis by simp
next
  case (Some r)
  then obtain x h' w' where r: "call env c m h w = Some (x, h', w')"
    by (cases r) auto
  show ?thesis
  proof (cases x)
    case (Some e)
    with r call_threw have "w' = w" by blast
    with r assms(1) show ?thesis by simp
  next
    case None
    with r obtain args where m: "m = Some args"
      by (cases m) (auto simp: call_def)
    from assms(2) m have pol: "returns_normally env (c_success args)" "returns_normally env (c_error args)"
      by simp_all
    let ?i = "s_curTranId w"
    from r[unfolded None m] have "consistent env w'"
    proof (cases rule: call_sent)
      case (1 st)
      note f = 1(4) 1(6) and ch = 1(9)
      let ?e = "\<lparr>e_callbacks = callbacks st, e_error = c_error args, e_success = c_success args\<rparr>"
      have tbl: "outTbl (chans w' c') j = (if c' = c \<and> j = ?i then Some ?e else outTbl (chans w c') j)" for c' j
        by (simp add: ch)
      from assms(1) have c1: "\<And>c i e. outTbl (chans w c) i = Some e \<Longrightarrow>
          i < s_curTranId w \<and> resolutions i (log w) = 0 \<and>
          returns_normally env (e_success e) \<and> returns_normally env (e_error e) \<and>
          (\<forall>c'. outTbl (chans w c') i \<noteq> None \<longrightarrow> c' = c)"
        and c2: "\<And>i. resolutions i (log w) \<le> 1"
        and c3: "\<And>i. 0 < resolutions i (log w) \<Longrightarrow> i < s_curTranId w"
        unfolding consistent_def by blast+
      have fresh: "outTbl (chans w c') ?i = None" for c'
      proof (cases "outTbl (chans w c') ?i")
        case (Some e)
        from c1[OF this] show ?thesis by simp
      qed simp
      have unres: "resolutions ?i (log w) = 0"
        using c3[of ?i] by auto
      show ?thesis
        unfolding consistent_def
      proof (intro conjI allI impI)
        fix c' j e assume a: "outTbl (chans w' c') j = Some e"
        show "j < s_curTranId w'" "resolutions j (log w') = 0"
          "returns_normally env (e_success e)" "returns_normally env (e_error e)"
          using a c1[of c' j e] pol unres by (auto simp: tbl f split: if_splits)
        fix c'' assume "outTbl (chans w' c'') j \<noteq> None"
        with a c1[of c' j e] fresh show "c'' = c'"
          by (auto simp: tbl split: if_splits)
      next
        fix j show "resolutions j (log w') \<le> 1" using c2[of j] by (simp add: f)
      next
        fix j assume "0 < resolutions j (log w')"
        with c3[of j] show "j < s_curTranId w'" by (simp add: f)
      qed
    qed
    with r show ?thesis by simp
  qed
qed

lemma notify_consistent:
  assumes "consistent env w"
  shows "consistent env (snd (notify c m w))"
proof -
  have "quiet w (snd (notify c m w))"
    by (auto simp: notify_def quiet_def split: option.splits)
  with assms show ?thesis by (rule consistent_quiet)
qed

lemma step_consistent:
  assumes "consistent env w" "polite env a"
  shows "consistent env (step env a w)"
proof (cases a)
  case (DoCall c m h)
  with assms call_consistent show ?thesis by blast
next
  case (DoNotify c m)
  with assms(1) notify_consistent show ?thesis by simp
next
  case (Deliver e)
  with assms(1) s_onMessage_consistent show ?thesis by simp
next
  case (Expire t)
  show ?thesis
  proof (cases "t \<in> set (timers w)")
    case False
    with Expire assms(1) show ?thesis by simp
  next
    case True
    let ?w = "w\<lparr>timers := remove1 t (timers w)\<rparr>"
    have cw: "consistent env ?w" using assms(1) by (simp add: consistent_timers)
    obtain x w' where tf: "timer_fires env t ?w = (x, w')"
      by (cases "timer_fires env t ?w") auto
    from timer_fires_effect[OF cw tf] cw have "consistent env w'"
      using consistent_quiet consistent_resolved by blast
    with Expire True tf show ?thesis by simp
  qed
qed

lemma run_consistent:
  "consistent env w \<Longrightarrow> \<forall>a \<in> set as. polite env a \<Longrightarrow> consistent env (run env as w)"
proof (induction as arbitrary: w)
  case Nil
  then show ?case by simp
next
  case (Cons a as)
  from Cons.prems have "consistent env (step env a w)"
    using step_consistent by simp
  with Cons.IH Cons.prems(2) show ?case by simp
qed

lemma consistent_new_world: "consistent env (new_world seed scope)"
  by (simp add: consistent_def new_world_def new_chan_def)

lemma evict_fields [simp]:
  "outTbl (chans (evict c i w) c) i = None"
  "s_transIds (evict c i w) i = None"
  "log (evict c i w) = log w"
  "s_curTranId (evict c i w) = s_curTranId w"
  by (simp_all add: evict_def)

lemma timer_fires_error:
  assumes "outTbl (chans w (t_chan t)) (t_transId t) = Some e" "e_error e = Fn f"
    and "snd (client_fn env f [VStr ''timeout_error'', VStr (timeout_message (t_timeout t) (t_method t))]) = Returns r"
  shows "timer_fires env t w = (None, evict (t_chan t) (t_transId t)
           (w\<lparr>log := log w @ [ErrorCalled (t_transId t)
              [VStr ''timeout_error'', VStr (timeout_message (t_timeout t) (t_method t))]]\<rparr>))"
  using assms by (simp add: timer_fires_def call_client_def Let_def)

lemma late_message_dropped:
  "s_transIds w i = None \<Longrightarrow> m_id m = Some i \<Longrightarrow> m_method m = None \<Longrightarrow>
     s_onMessage env \<lparr>e_data = Some m, e_source = src, e_origin = origin\<rparr> w = (None, w)"
  "outTbl (chans w c) i = None \<Longrightarrow> m_id m = Some i \<Longrightarrow>
     onMessage env c origin None m w = (None, w)"
  by (simp_all add: s_onMessage_def onMessage_def id_of_def Let_def)

lemma call_registers:
  assumes "call env c (Some m) h w = Some (None, h', w')"
  shows "\<exists>e. outTbl (chans w' c) (s_curTranId w) = Some e \<and> e_success e = c_success m \<and> e_error e = c_error m"
    and "s_transIds w' (s_curTranId w) = Some c"
    and "log w' = log w"
    and "c_timeout m = Some ms \<Longrightarrow> ms \<noteq> 0 \<Longrightarrow>
       \<lparr>t_chan = c, t_transId = s_curTranId w, t_timeout = ms,
         t_method = scopeMethod (cfg_scope (chans w c)) (str_of (c_method m))\<rparr> \<in> set (timers w')"
  using assms by (cases rule: call_sent; simp)+

lemma response_resolves:
  assumes "outTbl (chans w c) i = Some e" "s_transIds w i = Some c" "i \<noteq> 0"
    and "m_id m = Some i" "m_method m = None" "m_callback m = None" "m_error m = None"
    and "e_success e = Fn f"
    and "snd (client_fn env f (if m_result m \<noteq> VUndef then [m_result m] else [])) = Returns r"
  shows "s_onMessage env \<lparr>e_data = Some m, e_source = src, e_origin = origin\<rparr> w
     = (None, evict c i (w\<lparr>log := log w @
          [SuccessCalled i (if m_result m \<noteq> VUndef then [m_result m] else [])]\<rparr>))"
  using assms
  by (cases "m_result m = VUndef")
    (simp_all add: s_onMessage_def onMessage_def id_of_def call_client_def Let_def)

lemma error_response_resolves:
  assumes "outTbl (chans w c) i = Some e" "s_transIds w i = Some c" "i \<noteq> 0"
    and "m_id m = Some i" "m_method m = None" "m_callback m = None" "m_error m = Some s" "s \<noteq> []"
    and "e_error e = Fn f"
    and "snd (client_fn env f [VStr s, m_message m]) = Returns r"
  shows "s_onMessage env \<lparr>e_data = Some m, e_source = src, e_origin = origin\<rparr> w
     = (None, evict c i (w\<lparr>log := log w @ [ErrorCalled i [VStr s, m_message m]]\<rparr>))"
  using assms by (simp add: s_onMessage_def onMessage_def id_of_def call_client_def Let_def)

lemma error_response_unheard:
  assumes "outTbl (chans w c) i = Some e" "s_transIds w i = Some c" "i \<noteq> 0"
    and "m_id m = Some i" "m_method m = None" "m_callback m = None" "m_error m = Some s" "s \<noteq> []"
    and "\<not> truthy (e_error e)"
  shows "s_onMessage env \<lparr>e_data = Some m, e_source = src, e_origin = origin\<rparr> w = (None, evict c i w)"
  using assms by (simp add: s_onMessage_def onMessage_def id_of_def Let_def)

lemma timer_fires_unheard:
  assumes "outTbl (chans w (t_chan t)) (t_transId t) = Some e" "\<not> truthy (e_error e)"
  shows "timer_fires env t w = (None, evict (t_chan t) (t_transId t) w)"
  using assms by (simp add: timer_fires_def Let_def)

lemma timer_fires_throws:
  assumes "outTbl (chans w (t_chan t)) (t_transId t) = Some e" "e_error e = Fn f"
    and "snd (client_fn env f [VStr ''timeout_error'', VStr (timeout_message (t_timeout t) (t_method t))]) = Throws x"
  shows "timer_fires env t w = (Some x, w\<lparr>log := log w @ [ErrorCalled (t_transId t)
              [VStr ''timeout_error'', VStr (timeout_message (t_timeout t) (t_method t))]]\<rparr>)"
  using assms by (simp add: timer_fires_def call_client_def Let_def)

lemma evicted_is_deaf:
  assumes "m_id rsp = Some i \<and> m_method rsp = None"
  shows "s_onMessage env \<lparr>e_data = Some rsp, e_source = src, e_origin = origin\<rparr> (evict c i w) = (None, evict c i w) \<and>
         onMessage env c origin None rsp (evict c i w) = (None, evict c i w)"
  using assms late_message_dropped(1)[of "evict c i w" i rsp env src origin]
    late_message_dropped(2)[of "evict c i w" c i rsp env origin] by simp

text \<open>
  C6, as the claim states it, fails when the error callback throws: the timer function
  calls it before the two \<^verbatim>\<open>delete\<close> statements, so the exception leaves the timer function
  with both entries in place, and a Response that arrives afterwards still finds the
  transaction and calls the success callback.
\<close>

theorem throwing_error_callback_counterexample:
  "(case run \<lparr>client_fn = (\<lambda>f args. if f = 2 then ([], Throws (VStr ''oops'')) else ([], Returns VUndef)),
            json_stringify = (\<lambda>v. Returns VUndef), to_string = (\<lambda>v. Returns (VStr [])),
            builtin = (\<lambda>k args. Returns VUndef)\<rparr>
        [DoCall 0 (Some \<lparr>c_method = Str ''foo'', c_params = Undefined, c_success = Fn 1,
                         c_error = Fn 2, c_timeout = Some 50\<rparr>) [],
         Expire \<lparr>t_chan = 0, t_transId = 1, t_timeout = 50, t_method = ''chat::foo''\<rparr>]
        (new_world 1 ''chat'') of
      w \<Rightarrow> log w = [ErrorCalled 1 [VStr ''timeout_error'', VStr (timeout_message 50 ''chat::foo'')]] \<and>
          outTbl (chans w 0) 1 \<noteq> None \<and> s_transIds w 1 = Some 0) \<and>
   (case run \<lparr>client_fn = (\<lambda>f args. if f = 2 then ([], Throws (VStr ''oops'')) else ([], Returns VUndef)),
            json_stringify = (\<lambda>v. Returns VUndef), to_string = (\<lambda>v. Returns (VStr [])),
            builtin = (\<lambda>k args. Returns VUndef)\<rparr>
        [DoCall 0 (Some \<lparr>c_method = Str ''foo'', c_params = Undefined, c_success = Fn 1,
                         c_error = Fn 2, c_timeout = Some 50\<rparr>) [],
         Expire \<lparr>t_chan = 0, t_transId = 1, t_timeout = 50, t_method = ''chat::foo''\<rparr>,
         Deliver \<lparr>e_data = Some \<lparr>m_id = Some 1, m_method = None, m_params = VUndef, m_callbacks = None,
                     m_callback = None, m_error = None, m_message = VUndef, m_result = VNum 5\<rparr>,
                  e_source = 5, e_origin = ''https://a.example''\<rparr>]
        (new_world 1 ''chat'') of
      w \<Rightarrow> log w = [ErrorCalled 1 [VStr ''timeout_error'', VStr (timeout_message 50 ''chat::foo'')],
                    SuccessCalled 1 [VNum 5]])"
  by (simp add: call_def prune_start_def Let_def new_world_def new_chan_def setTransactionTimeout_def
      timer_fires_def call_client_def s_onMessage_def onMessage_def id_of_def evict_def
      postMessage_def scopeMethod_def)

text \<open>
  C6, amended: a call with a timeout other than \<open>0\<close> that returns arms a timer for its id
  and stores its entry in the outbound table of the channel and in the table \<^verbatim>\<open>s_transIds\<close>
  of the page.
  When the timer fires and the entry is still there, then: if the error callback of the
  call is a function that returns, it is called with \<^verbatim>\<open>timeout_error\<close> and the timeout
  message and the entry is deleted from both tables; if the call has no error callback,
  nothing is called and the entry is deleted from both tables; in both cases a message
  with this id and no method that arrives later is dropped: neither the listener of the
  page nor \<^verbatim>\<open>onMessage\<close> of the channel calls anything or changes the state. If the error
  callback is a function that throws, it is called likewise, what it throws leaves the
  timer function, and the entry stays in both tables.
\<close>

theorem timeout_evicts_transaction:
  "(call env c (Some m) h w0 = Some (None, h', w1) \<and> c_timeout m = Some ms \<and> ms \<noteq> 0 \<longrightarrow>
      \<lparr>t_chan = c, t_transId = s_curTranId w0, t_timeout = ms,
        t_method = scopeMethod (cfg_scope (chans w0 c)) (str_of (c_method m))\<rparr> \<in> set (timers w1) \<and>
      (\<exists>e. outTbl (chans w1 c) (s_curTranId w0) = Some e \<and> e_error e = c_error m) \<and>
      s_transIds w1 (s_curTranId w0) = Some c)
   \<and> (outTbl (chans w c) i = Some e \<and> t_chan t = c \<and> t_transId t = i \<and> e_error e = Fn f \<and>
       snd (client_fn env f [VStr ''timeout_error'', VStr (timeout_message (t_timeout t) (t_method t))]) = Returns r
      \<longrightarrow> (\<exists>w'. timer_fires env t w = (None, w') \<and>
             log w' = log w @ [ErrorCalled i [VStr ''timeout_error'',
                                  VStr (timeout_message (t_timeout t) (t_method t))]] \<and>
             outTbl (chans w' c) i = None \<and> s_transIds w' i = None \<and>
             (\<forall>rsp src origin. m_id rsp = Some i \<and> m_method rsp = None \<longrightarrow>
                s_onMessage env \<lparr>e_data = Some rsp, e_source = src, e_origin = origin\<rparr> w' = (None, w') \<and>
                onMessage env c origin None rsp w' = (None, w'))))
   \<and> (outTbl (chans w c) i = Some e \<and> t_chan t = c \<and> t_transId t = i \<and> \<not> truthy (e_error e)
      \<longrightarrow> (\<exists>w'. timer_fires env t w = (None, w') \<and> log w' = log w \<and>
             outTbl (chans w' c) i = None \<and> s_transIds w' i = None \<and>
             (\<forall>rsp src origin. m_id rsp = Some i \<and> m_method rsp = None \<longrightarrow>
                s_onMessage env \<lparr>e_data = Some rsp, e_source = src, e_origin = origin\<rparr> w' = (None, w') \<and>
                onMessage env c origin None rsp w' = (None, w'))))
   \<and> (outTbl (chans w c) i = Some e \<and> t_chan t = c \<and> t_transId t = i \<and> e_error e = Fn f \<and>
       snd (client_fn env f [VStr ''timeout_error'', VStr (timeout_message (t_timeout t) (t_method t))]) = Throws x
      \<longrightarrow> (\<exists>w'. timer_fires env t w = (Some x, w') \<and>
             log w' = log w @ [ErrorCalled i [VStr ''timeout_error'',
                                  VStr (timeout_message (t_timeout t) (t_method t))]] \<and>
             outTbl (chans w' c) i = Some e \<and> s_transIds w' i = s_transIds w i))"
proof -
  let ?args = "[VStr ''timeout_error'', VStr (timeout_message (t_timeout t) (t_method t))]"
  have a: "\<lparr>t_chan = c, t_transId = s_curTranId w0, t_timeout = ms,
        t_method = scopeMethod (cfg_scope (chans w0 c)) (str_of (c_method m))\<rparr> \<in> set (timers w1) \<and>
      (\<exists>e. outTbl (chans w1 c) (s_curTranId w0) = Some e \<and> e_error e = c_error m) \<and>
      s_transIds w1 (s_curTranId w0) = Some c"
    if "call env c (Some m) h w0 = Some (None, h', w1) \<and> c_timeout m = Some ms \<and> ms \<noteq> 0"
  proof -
    from that have c: "call env c (Some m) h w0 = Some (None, h', w1)"
      and t: "c_timeout m = Some ms" "ms \<noteq> 0" by simp_all
    from call_registers(1)[OF c] call_registers(2)[OF c] call_registers(4)[OF c t]
    show ?thesis by blast
  qed
  have b: "\<exists>w'. timer_fires env t w = (None, w') \<and> log w' = log w @ [ErrorCalled i ?args] \<and>
             outTbl (chans w' c) i = None \<and> s_transIds w' i = None \<and>
             (\<forall>rsp src origin. m_id rsp = Some i \<and> m_method rsp = None \<longrightarrow>
                s_onMessage env \<lparr>e_data = Some rsp, e_source = src, e_origin = origin\<rparr> w' = (None, w') \<and>
                onMessage env c origin None rsp w' = (None, w'))"
    if "outTbl (chans w c) i = Some e \<and> t_chan t = c \<and> t_transId t = i \<and> e_error e = Fn f \<and>
       snd (client_fn env f ?args) = Returns r"
  proof -
    let ?w' = "evict c i (w\<lparr>log := log w @ [ErrorCalled i ?args]\<rparr>)"
    from that have f: "timer_fires env t w = (None, ?w')"
      using timer_fires_error[of w t e f env r] by simp
    from f evicted_is_deaf[of _ i env _ _ c "w\<lparr>log := log w @ [ErrorCalled i ?args]\<rparr>"]
    show ?thesis by simp
  qed
  have c: "\<exists>w'. timer_fires env t w = (None, w') \<and> log w' = log w \<and>
             outTbl (chans w' c) i = None \<and> s_transIds w' i = None \<and>
             (\<forall>rsp src origin. m_id rsp = Some i \<and> m_method rsp = None \<longrightarrow>
                s_onMessage env \<lparr>e_data = Some rsp, e_source = src, e_origin = origin\<rparr> w' = (None, w') \<and>
                onMessage env c origin None rsp w' = (None, w'))"
    if "outTbl (chans w c) i = Some e \<and> t_chan t = c \<and> t_transId t = i \<and> \<not> truthy (e_error e)"
  proof -
    from that have f: "timer_fires env t w = (None, evict c i w)"
      using timer_fires_unheard[of w t e env] by simp
    from f evicted_is_deaf[of _ i env _ _ c w]
    show ?thesis by simp
  qed
  have d: "\<exists>w'. timer_fires env t w = (Some x, w') \<and> log w' = log w @ [ErrorCalled i ?args] \<and>
             outTbl (chans w' c) i = Some e \<and> s_transIds w' i = s_transIds w i"
    if "outTbl (chans w c) i = Some e \<and> t_chan t = c \<and> t_transId t = i \<and> e_error e = Fn f \<and>
       snd (client_fn env f ?args) = Throws x"
    using that timer_fires_throws[of w t e f env x] by simp
  show ?thesis
    by (rule conjI[OF impI[OF a] conjI[OF impI[OF b] conjI[OF impI[OF c] impI[OF d]]]])
qed

theorem timeout_evicts_transaction_witness:
  "(\<exists>h' w1 w'.
     call \<lparr>client_fn = (\<lambda>f args. ([], Returns VUndef)),
            json_stringify = (\<lambda>v. Returns VUndef), to_string = (\<lambda>v. Returns (VStr [])),
            builtin = (\<lambda>k args. Returns VUndef)\<rparr>
        0 (Some \<lparr>c_method = Str ''foo'', c_params = Undefined, c_success = Fn 1,
                 c_error = Fn 2, c_timeout = Some 50\<rparr>) [] (new_world 1 ''chat'') = Some (None, h', w1) \<and>
     \<lparr>t_chan = 0, t_transId = 1, t_timeout = 50, t_method = ''chat::foo''\<rparr> \<in> set (timers w1) \<and>
     timer_fires \<lparr>client_fn = (\<lambda>f args. ([], Returns VUndef)),
            json_stringify = (\<lambda>v. Returns VUndef), to_string = (\<lambda>v. Returns (VStr [])),
            builtin = (\<lambda>k args. Returns VUndef)\<rparr>
         \<lparr>t_chan = 0, t_transId = 1, t_timeout = 50, t_method = ''chat::foo''\<rparr> w1 = (None, w') \<and>
     log w' = [ErrorCalled 1 [VStr ''timeout_error'', VStr (timeout_message 50 ''chat::foo'')]] \<and>
     outTbl (chans w' 0) 1 = None \<and> s_transIds w' 1 = None \<and>
     s_onMessage \<lparr>client_fn = (\<lambda>f args. ([], Returns VUndef)),
            json_stringify = (\<lambda>v. Returns VUndef), to_string = (\<lambda>v. Returns (VStr [])),
            builtin = (\<lambda>k args. Returns VUndef)\<rparr>
         \<lparr>e_data = Some \<lparr>m_id = Some 1, m_method = None, m_params = VUndef, m_callbacks = None,
                     m_callback = None, m_error = None, m_message = VUndef, m_result = VNum 5\<rparr>,
           e_source = 5, e_origin = ''https://a.example''\<rparr> w' = (None, w')) \<and>
   (\<exists>h' w1 w'.
     call \<lparr>client_fn = (\<lambda>f args. ([], Returns VUndef)),
            json_stringify = (\<lambda>v. Returns VUndef), to_string = (\<lambda>v. Returns (VStr [])),
            builtin = (\<lambda>k args. Returns VUndef)\<rparr>
        0 (Some \<lparr>c_method = Str ''foo'', c_params = Undefined, c_success = Fn 1,
                 c_error = Undefined, c_timeout = Some 50\<rparr>) [] (new_world 1 ''chat'') = Some (None, h', w1) \<and>
     timer_fires \<lparr>client_fn = (\<lambda>f args. ([], Returns VUndef)),
            json_stringify = (\<lambda>v. Returns VUndef), to_string = (\<lambda>v. Returns (VStr [])),
            builtin = (\<lambda>k args. Returns VUndef)\<rparr>
         \<lparr>t_chan = 0, t_transId = 1, t_timeout = 50, t_method = ''chat::foo''\<rparr> w1 = (None, w') \<and>
     log w' = [] \<and> outTbl (chans w' 0) 1 = None \<and> s_transIds w' 1 = None) \<and>
   (\<exists>h' w1 w'.
     call \<lparr>client_fn = (\<lambda>f args. ([], Throws (VStr ''oops''))),
            json_stringify = (\<lambda>v. Returns VUndef), to_string = (\<lambda>v. Returns (VStr [])),
            builtin = (\<lambda>k args. Returns VUndef)\<rparr>
        0 (Some \<lparr>c_method = Str ''foo'', c_params = Undefined, c_success = Fn 1,
                 c_error = Fn 2, c_timeout = Some 50\<rparr>) [] (new_world 1 ''chat'') = Some (None, h', w1) \<and>
     timer_fires \<lparr>client_fn = (\<lambda>f args. ([], Throws (VStr ''oops''))),
            json_stringify = (\<lambda>v. Returns VUndef), to_string = (\<lambda>v. Returns (VStr [])),
            builtin = (\<lambda>k args. Returns VUndef)\<rparr>
         \<lparr>t_chan = 0, t_transId = 1, t_timeout = 50, t_method = ''chat::foo''\<rparr> w1 = (Some (VStr ''oops''), w') \<and>
     log w' = [ErrorCalled 1 [VStr ''timeout_error'', VStr (timeout_message 50 ''chat::foo'')]] \<and>
     outTbl (chans w' 0) 1 \<noteq> None \<and> s_transIds w' 1 = Some 0)"
proof -
  let ?A = "\<lparr>c_method = Str ''foo'', c_params = Undefined, c_success = Fn 1,
                 c_error = Fn 2, c_timeout = Some 50\<rparr>"
  let ?B = "\<lparr>c_method = Str ''foo'', c_params = Undefined, c_success = Fn 1,
                 c_error = Undefined, c_timeout = Some 50\<rparr>"
  let ?W = "new_world 1 ''chat''"
  let ?E = "\<lparr>client_fn = (\<lambda>f args. ([], Returns VUndef)),
            json_stringify = (\<lambda>v. Returns VUndef), to_string = (\<lambda>v. Returns (VStr [])),
            builtin = (\<lambda>k args. Returns VUndef)\<rparr>"
  let ?F = "\<lparr>client_fn = (\<lambda>f args. ([], Throws (VStr ''oops''))),
            json_stringify = (\<lambda>v. Returns VUndef), to_string = (\<lambda>v. Returns (VStr [])),
            builtin = (\<lambda>k args. Returns VUndef)\<rparr>"
  let ?T = "\<lparr>t_chan = 0, t_transId = 1, t_timeout = 50, t_method = ''chat::foo''\<rparr>"
  let ?R = "\<lparr>m_id = Some 1, m_method = None, m_params = VUndef, m_callbacks = None,
                     m_callback = None, m_error = None, m_message = VUndef, m_result = VNum 5\<rparr>"
  let ?args = "[VStr ''timeout_error'', VStr (timeout_message (t_timeout ?T) (t_method ?T))]"
  have sw: "s_curTranId ?W = 1" "scopeMethod (cfg_scope (chans ?W 0)) ''foo'' = ''chat::foo''" "log ?W = []"
    "s_transIds ?W 1 = None"
    by (simp_all add: new_world_def new_chan_def scopeMethod_def)
  \<comment> \<open>an error callback that returns\<close>
  obtain h1 w1 where c1: "call ?E 0 (Some ?A) [] ?W = Some (None, h1, w1)"
    by (simp add: call_def prune_start_def Let_def)
  have l1: "log w1 = []"
    using call_registers(3)[OF c1] by (simp add: sw)
  have g1: "call ?E 0 (Some ?A) [] ?W = Some (None, h1, w1) \<and> c_timeout ?A = Some 50 \<and> (50::int) \<noteq> 0"
    using c1 by simp
  note a1 = timeout_evicts_transaction[where env="?E" and c=0 and m="?A" and h="[]" and ?w0.0="?W"
      and h'=h1 and ?w1.0=w1 and ms=50, THEN conjunct1, THEN mp, OF g1]
  from a1 have t1: "?T \<in> set (timers w1)" by (simp add: sw)
  from a1 obtain e1 where e1: "outTbl (chans w1 0) 1 = Some e1" "e_error e1 = Fn 2"
    by (auto simp: sw)
  have g2: "outTbl (chans w1 0) 1 = Some e1 \<and> t_chan ?T = 0 \<and> t_transId ?T = 1 \<and> e_error e1 = Fn 2 \<and>
       snd (client_fn ?E 2 ?args) = Returns VUndef"
    using e1 by simp
  note b1 = timeout_evicts_transaction[where env="?E" and w=w1 and c=0 and i=1 and e=e1 and t="?T" and f=2
      and r=VUndef, THEN conjunct2, THEN conjunct1, THEN mp, OF g2]
  then obtain w1' where w1': "timer_fires ?E ?T w1 = (None, w1')"
      "log w1' = log w1 @ [ErrorCalled 1 ?args]"
      "outTbl (chans w1' 0) 1 = None" "s_transIds w1' 1 = None"
      "\<forall>rsp src origin. m_id rsp = Some 1 \<and> m_method rsp = None \<longrightarrow>
                s_onMessage ?E \<lparr>e_data = Some rsp, e_source = src, e_origin = origin\<rparr> w1' = (None, w1') \<and>
                onMessage ?E 0 origin None rsp w1' = (None, w1')"
    by blast
  have r: "m_id ?R = Some 1 \<and> m_method ?R = None" by simp
  from w1'(5)[rule_format, OF r, THEN conjunct1]
  have late: "s_onMessage ?E \<lparr>e_data = Some ?R, e_source = 5, e_origin = ''https://a.example''\<rparr> w1' = (None, w1')" .
  from w1'(2) l1 have l1': "log w1' = [ErrorCalled 1 [VStr ''timeout_error'', VStr (timeout_message 50 ''chat::foo'')]]"
    by simp
  \<comment> \<open>no error callback\<close>
  obtain h2 w2 where c2: "call ?E 0 (Some ?B) [] ?W = Some (None, h2, w2)"
    by (simp add: call_def prune_start_def Let_def)
  have l2: "log w2 = []"
    using call_registers(3)[OF c2] by (simp add: sw)
  from call_registers(1)[OF c2] obtain e2 where e2: "outTbl (chans w2 0) 1 = Some e2" "e_error e2 = Undefined"
    by (auto simp: sw)
  have g3: "outTbl (chans w2 0) 1 = Some e2 \<and> t_chan ?T = 0 \<and> t_transId ?T = 1 \<and> \<not> truthy (e_error e2)"
    using e2 by simp
  note b2 = timeout_evicts_transaction[where env="?E" and w=w2 and c=0 and i=1 and e=e2 and t="?T",
      THEN conjunct2, THEN conjunct2, THEN conjunct1, THEN mp, OF g3]
  then obtain w2' where w2': "timer_fires ?E ?T w2 = (None, w2')" "log w2' = log w2"
      "outTbl (chans w2' 0) 1 = None" "s_transIds w2' 1 = None"
    by blast
  from w2'(2) l2 have l2': "log w2' = []" by simp
  \<comment> \<open>an error callback that throws\<close>
  obtain h3 w3 where c3: "call ?F 0 (Some ?A) [] ?W = Some (None, h3, w3)"
    by (simp add: call_def prune_start_def Let_def)
  have l3: "log w3 = []"
    using call_registers(3)[OF c3] by (simp add: sw)
  from call_registers(1)[OF c3] obtain e3 where e3: "outTbl (chans w3 0) 1 = Some e3" "e_error e3 = Fn 2"
    by (auto simp: sw)
  have s3: "s_transIds w3 1 = Some 0"
    using call_registers(2)[OF c3] by (simp add: sw)
  have g4: "outTbl (chans w3 0) 1 = Some e3 \<and> t_chan ?T = 0 \<and> t_transId ?T = 1 \<and> e_error e3 = Fn 2 \<and>
       snd (client_fn ?F 2 ?args) = Throws (VStr ''oops'')"
    using e3 by simp
  note b3 = timeout_evicts_transaction[where env="?F" and w=w3 and c=0 and i=1 and e=e3 and t="?T" and f=2
      and x="VStr ''oops''", THEN conjunct2, THEN conjunct2, THEN conjunct2, THEN mp, OF g4]
  then obtain w3' where w3': "timer_fires ?F ?T w3 = (Some (VStr ''oops''), w3')"
      "log w3' = log w3 @ [ErrorCalled 1 ?args]"
      "outTbl (chans w3' 0) 1 = Some e3" "s_transIds w3' 1 = s_transIds w3 1"
    by blast
  from w3'(2) l3 have l3': "log w3' = [ErrorCalled 1 [VStr ''timeout_error'', VStr (timeout_message 50 ''chat::foo'')]]"
    by simp
  from w3'(3) have o3: "outTbl (chans w3' 0) 1 \<noteq> None" by simp
  from w3'(4) s3 have s3': "s_transIds w3' 1 = Some 0" by simp
  have 1: "\<exists>h' w1 w'. call ?E 0 (Some ?A) [] ?W = Some (None, h', w1) \<and> ?T \<in> set (timers w1) \<and>
     timer_fires ?E ?T w1 = (None, w') \<and>
     log w' = [ErrorCalled 1 [VStr ''timeout_error'', VStr (timeout_message 50 ''chat::foo'')]] \<and>
     outTbl (chans w' 0) 1 = None \<and> s_transIds w' 1 = None \<and>
     s_onMessage ?E \<lparr>e_data = Some ?R, e_source = 5, e_origin = ''https://a.example''\<rparr> w' = (None, w')"
    using c1 t1 w1'(1) l1' w1'(3,4) late by blast
  have 2: "\<exists>h' w1 w'. call ?E 0 (Some ?B) [] ?W = Some (None, h', w1) \<and>
     timer_fires ?E ?T w1 = (None, w') \<and> log w' = [] \<and> outTbl (chans w' 0) 1 = None \<and> s_transIds w' 1 = None"
    using c2 w2'(1) l2' w2'(3,4) by blast
  have 3: "\<exists>h' w1 w'. call ?F 0 (Some ?A) [] ?W = Some (None, h', w1) \<and>
     timer_fires ?F ?T w1 = (Some (VStr ''oops''), w') \<and>
     log w' = [ErrorCalled 1 [VStr ''timeout_error'', VStr (timeout_message 50 ''chat::foo'')]] \<and>
     outTbl (chans w' 0) 1 \<noteq> None \<and> s_transIds w' 1 = Some 0"
    using c3 w3'(1) l3' o3 s3' by blast
  show ?thesis
    by (rule conjI[OF 1 conjI[OF 2 3]])
qed

text \<open>
  C1, as the claim states it, fails for a call without an error callback, which \<^verbatim>\<open>call\<close>
  accepts: when the peer answers with an error response, the entry is deleted and neither
  callback is ever called.
\<close>

theorem no_error_callback_counterexample:
  "valid_call \<lparr>c_method = Str ''foo'', c_params = Undefined, c_success = Fn 1,
                 c_error = Undefined, c_timeout = None\<rparr> \<and>
   (case run \<lparr>client_fn = (\<lambda>f args. ([], Returns VUndef)),
            json_stringify = (\<lambda>v. Returns VUndef), to_string = (\<lambda>v. Returns (VStr [])),
            builtin = (\<lambda>k args. Returns VUndef)\<rparr>
        [DoCall 0 (Some \<lparr>c_method = Str ''foo'', c_params = Undefined, c_success = Fn 1,
                 c_error = Undefined, c_timeout = None\<rparr>) [],
         Deliver \<lparr>e_data = Some \<lparr>m_id = Some 1, m_method = None, m_params = VUndef, m_callbacks = None,
                     m_callback = None, m_error = Some ''boom'', m_message = VStr ''bad'', m_result = VUndef\<rparr>,
                  e_source = 5, e_origin = ''https://a.example''\<rparr>]
        (new_world 1 ''chat'') of
      w \<Rightarrow> log w = [] \<and> outTbl (chans w 0) 1 = None \<and> s_transIds w 1 = None \<and>
          pendingQueue (chans w 0) = [Request 1 ''chat::foo'' Undefined None])"
  by (simp add: valid_call_def call_def prune_start_def Let_def new_world_def new_chan_def
      s_onMessage_def onMessage_def id_of_def evict_def postMessage_def scopeMethod_def)

text \<open>
  C1, amended: from a state of the page in which no callback has been called and no call
  is outstanding, along every sequence of calls, notifications, delivered messages and
  fired timers in which the callbacks of every call return whenever they are called, the
  success and the error callback of one transaction id are called at most once in total. A call that returns stores its two callbacks under its id, in the
  outbound table of its channel and in \<^verbatim>\<open>s_transIds\<close>. For a transaction stored in both under
  an id other than \<open>0\<close>: a response with this id (no method, callback or error) calls the
  success callback, a function that returns, once and deletes the entry from both; an
  error response with this id (its error is not empty) calls the error callback once, if
  that is a function that returns, calls nothing if the call has no error callback, and
  deletes the entry from both. When the timer of a stored transaction fires, the error
  callback is called once with \<^verbatim>\<open>timeout_error\<close>, if it is a function that returns, nothing
  is called if the call has no error callback, and the entry is deleted from both.
\<close>

theorem callbacks_resolve_at_most_once:
  "(log w0 = [] \<and> (\<forall>c. outTbl (chans w0 c) = Map.empty) \<and> (\<forall>a \<in> set as. polite env a) \<longrightarrow>
        (\<forall>j. resolutions j (log (run env as w0)) \<le> 1))
   \<and> (call env c (Some m) h w = Some (None, h', w1) \<longrightarrow>
        (\<exists>e. outTbl (chans w1 c) (s_curTranId w) = Some e \<and> e_success e = c_success m \<and>
             e_error e = c_error m) \<and>
        s_transIds w1 (s_curTranId w) = Some c \<and> log w1 = log w)
   \<and> (outTbl (chans w c) i = Some e \<and> s_transIds w i = Some c \<and> i \<noteq> 0 \<and>
       m_id rsp = Some i \<and> m_method rsp = None \<and> m_callback rsp = None \<and> m_error rsp = None \<and>
       e_success e = Fn f \<and>
       snd (client_fn env f (if m_result rsp \<noteq> VUndef then [m_result rsp] else [])) = Returns r \<longrightarrow>
        (\<exists>w'. s_onMessage env \<lparr>e_data = Some rsp, e_source = src, e_origin = origin\<rparr> w = (None, w') \<and>
           log w' = log w @ [SuccessCalled i (if m_result rsp \<noteq> VUndef then [m_result rsp] else [])] \<and>
           outTbl (chans w' c) i = None \<and> s_transIds w' i = None))
   \<and> (outTbl (chans w c) i = Some e \<and> s_transIds w i = Some c \<and> i \<noteq> 0 \<and>
       m_id ersp = Some i \<and> m_method ersp = None \<and> m_callback ersp = None \<and>
       m_error ersp = Some s \<and> s \<noteq> [] \<and> e_error e = Fn g \<and>
       snd (client_fn env g [VStr s, m_message ersp]) = Returns r \<longrightarrow>
        (\<exists>w'. s_onMessage env \<lparr>e_data = Some ersp, e_source = src, e_origin = origin\<rparr> w = (None, w') \<and>
           log w' = log w @ [ErrorCalled i [VStr s, m_message ersp]] \<and>
           outTbl (chans w' c) i = None \<and> s_transIds w' i = None))
   \<and> (outTbl (chans w c) i = Some e \<and> s_transIds w i = Some c \<and> i \<noteq> 0 \<and>
       m_id ersp = Some i \<and> m_method ersp = None \<and> m_callback ersp = None \<and>
       m_error ersp = Some s \<and> s \<noteq> [] \<and> \<not> truthy (e_error e) \<longrightarrow>
        (\<exists>w'. s_onMessage env \<lparr>e_data = Some ersp, e_source = src, e_origin = origin\<rparr> w = (None, w') \<and>
           log w' = log w \<and> outTbl (chans w' c) i = None \<and> s_transIds w' i = None))
   \<and> (outTbl (chans w c) i = Some e \<and> t_chan t = c \<and> t_transId t = i \<and> e_error e = Fn g \<and>
       snd (client_fn env g [VStr ''timeout_error'', VStr (timeout_message (t_timeout t) (t_method t))]) = Returns r \<longrightarrow>
        (\<exists>w'. timer_fires env t w = (None, w') \<and>
           log w' = log w @ [ErrorCalled i [VStr ''timeout_error'',
                                VStr (timeout_message (t_timeout t) (t_method t))]] \<and>
           outTbl (chans w' c) i = None \<and> s_transIds w' i = None))
   \<and> (outTbl (chans w c) i = Some e \<and> t_chan t = c \<and> t_transId t = i \<and> \<not> truthy (e_error e) \<longrightarrow>
        (\<exists>w'. timer_fires env t w = (None, w') \<and> log w' = log w \<and>
           outTbl (chans w' c) i = None \<and> s_transIds w' i = None))"
proof -
  have p1: "\<forall>j. resolutions j (log (run env as w0)) \<le> 1"
    if "log w0 = [] \<and> (\<forall>c. outTbl (chans w0 c) = Map.empty) \<and> (\<forall>a \<in> set as. polite env a)"
  proof -
    from that have "consistent env w0" by (simp add: consistent_def)
    from run_consistent[OF this] that
    have "consistent env (run env as w0)" by blast
    then show ?thesis by (simp add: consistent_def)
  qed
  have p2: "(\<exists>e. outTbl (chans w1 c) (s_curTranId w) = Some e \<and> e_success e = c_success m \<and>
             e_error e = c_error m) \<and>
        s_transIds w1 (s_curTranId w) = Some c \<and> log w1 = log w"
    if "call env c (Some m) h w = Some (None, h', w1)"
    using call_registers(1,2,3)[OF that] by blast
  have p3: "\<exists>w'. s_onMessage env \<lparr>e_data = Some rsp, e_source = src, e_origin = origin\<rparr> w = (None, w') \<and>
           log w' = log w @ [SuccessCalled i (if m_result rsp \<noteq> VUndef then [m_result rsp] else [])] \<and>
           outTbl (chans w' c) i = None \<and> s_transIds w' i = None"
    if "outTbl (chans w c) i = Some e \<and> s_transIds w i = Some c \<and> i \<noteq> 0 \<and>
       m_id rsp = Some i \<and> m_method rsp = None \<and> m_callback rsp = None \<and> m_error rsp = None \<and>
       e_success e = Fn f \<and>
       snd (client_fn env f (if m_result rsp \<noteq> VUndef then [m_result rsp] else [])) = Returns r"
    using response_resolves[of w c i e rsp f env r src origin] that by simp
  have p4: "\<exists>w'. s_onMessage env \<lparr>e_data = Some ersp, e_source = src, e_origin = origin\<rparr> w = (None, w') \<and>
           log w' = log w @ [ErrorCalled i [VStr s, m_message ersp]] \<and>
           outTbl (chans w' c) i = None \<and> s_transIds w' i = None"
    if "outTbl (chans w c) i = Some e \<and> s_transIds w i = Some c \<and> i \<noteq> 0 \<and>
       m_id ersp = Some i \<and> m_method ersp = None \<and> m_callback ersp = None \<and>
       m_error ersp = Some s \<and> s \<noteq> [] \<and> e_error e = Fn g \<and>
       snd (client_fn env g [VStr s, m_message ersp]) = Returns r"
    using error_response_resolves[of w c i e ersp s g env r src origin] that by simp
  have p5: "\<exists>w'. s_onMessage env \<lparr>e_data = Some ersp, e_source = src, e_origin = origin\<rparr> w = (None, w') \<and>
           log w' = log w \<and> outTbl (chans w' c) i = None \<and> s_transIds w' i = None"
    if "outTbl (chans w c) i = Some e \<and> s_transIds w i = Some c \<and> i \<noteq> 0 \<and>
       m_id ersp = Some i \<and> m_method ersp = None \<and> m_callback ersp = None \<and>
       m_error ersp = Some s \<and> s \<noteq> [] \<and> \<not> truthy (e_error e)"
    using error_response_unheard[of w c i e ersp s env src origin] that by simp
  have p6: "\<exists>w'. timer_fires env t w = (None, w') \<and>
           log w' = log w @ [ErrorCalled i [VStr ''timeout_error'',
                                VStr (timeout_message (t_timeout t) (t_method t))]] \<and>
           outTbl (chans w' c) i = None \<and> s_transIds w' i = None"
    if "outTbl (chans w c) i = Some e \<and> t_chan t = c \<and> t_transId t = i \<and> e_error e = Fn g \<and>
       snd (client_fn env g [VStr ''timeout_error'', VStr (timeout_message (t_timeout t) (t_method t))]) = Returns r"
    using timer_fires_error[of w t e g env r] that by simp
  have p7: "\<exists>w'. timer_fires env t w = (None, w') \<and> log w' = log w \<and>
           outTbl (chans w' c) i = None \<and> s_transIds w' i = None"
    if "outTbl (chans w c) i = Some e \<and> t_chan t = c \<and> t_transId t = i \<and> \<not> truthy (e_error e)"
    using timer_fires_unheard[of w t e env] that by simp
  show ?thesis
    by (rule conjI[OF impI[OF p1] conjI[OF impI[OF p2] conjI[OF impI[OF p3]
          conjI[OF impI[OF p4] conjI[OF impI[OF p5] conjI[OF impI[OF p6] impI[OF p7]]]]]]])
qed

theorem callbacks_resolve_at_most_once_witness:
  "(\<forall>j. resolutions j (log (run
        \<lparr>client_fn = (\<lambda>f args. ([], Returns VUndef)),
          json_stringify = (\<lambda>v. Returns VUndef), to_string = (\<lambda>v. Returns (VStr [])),
          builtin = (\<lambda>k args. Returns VUndef)\<rparr>
        [DoCall 0 (Some \<lparr>c_method = Str ''foo'', c_params = Undefined, c_success = Fn 1,
                         c_error = Fn 2, c_timeout = Some 50\<rparr>) [],
         Deliver \<lparr>e_data = Some \<lparr>m_id = Some 1, m_method = None, m_params = VUndef, m_callbacks = None,
                     m_callback = None, m_error = None, m_message = VUndef, m_result = VNum 5\<rparr>,
                  e_source = 5, e_origin = ''https://a.example''\<rparr>,
         Deliver \<lparr>e_data = Some \<lparr>m_id = Some 1, m_method = None, m_params = VUndef, m_callbacks = None,
                     m_callback = None, m_error = Some ''boom'', m_message = VStr ''bad'',
                     m_result = VUndef\<rparr>,
                  e_source = 5, e_origin = ''https://a.example''\<rparr>,
         Expire \<lparr>t_chan = 0, t_transId = 1, t_timeout = 50, t_method = ''chat::foo''\<rparr>]
        (new_world 1 ''chat''))) \<le> 1) \<and>
   (\<exists>h' w1.
      call \<lparr>client_fn = (\<lambda>f args. ([], Returns VUndef)),
             json_stringify = (\<lambda>v. Returns VUndef), to_string = (\<lambda>v. Returns (VStr [])),
             builtin = (\<lambda>k args. Returns VUndef)\<rparr>
           0 (Some \<lparr>c_method = Str ''foo'', c_params = Undefined, c_success = Fn 1,
                  c_error = Fn 2, c_timeout = Some 50\<rparr>) [] (new_world 1 ''chat'') = Some (None, h', w1) \<and>
      (\<exists>w'. s_onMessage \<lparr>client_fn = (\<lambda>f args. ([], Returns VUndef)),
                 json_stringify = (\<lambda>v. Returns VUndef), to_string = (\<lambda>v. Returns (VStr [])),
                 builtin = (\<lambda>k args. Returns VUndef)\<rparr>
               \<lparr>e_data = Some \<lparr>m_id = Some 1, m_method = None, m_params = VUndef, m_callbacks = None,
                     m_callback = None, m_error = None, m_message = VUndef, m_result = VNum 5\<rparr>,
                 e_source = 5, e_origin = ''https://a.example''\<rparr> w1 = (None, w') \<and>
             log w' = [SuccessCalled 1 [VNum 5]] \<and> outTbl (chans w' 0) 1 = None) \<and>
      (\<exists>w'. s_onMessage \<lparr>client_fn = (\<lambda>f args. ([], Returns VUndef)),
                 json_stringify = (\<lambda>v. Returns VUndef), to_string = (\<lambda>v. Returns (VStr [])),
                 builtin = (\<lambda>k args. Returns VUndef)\<rparr>
               \<lparr>e_data = Some \<lparr>m_id = Some 1, m_method = None, m_params = VUndef, m_callbacks = None,
                     m_callback = None, m_error = Some ''boom'', m_message = VStr ''bad'',
                     m_result = VUndef\<rparr>,
                 e_source = 5, e_origin = ''https://a.example''\<rparr> w1 = (None, w') \<and>
             log w' = [ErrorCalled 1 [VStr ''boom'', VStr ''bad'']] \<and> outTbl (chans w' 0) 1 = None) \<and>
      (\<exists>w'. timer_fires \<lparr>client_fn = (\<lambda>f args. ([], Returns VUndef)),
                 json_stringify = (\<lambda>v. Returns VUndef), to_string = (\<lambda>v. Returns (VStr [])),
                 builtin = (\<lambda>k args. Returns VUndef)\<rparr>
               \<lparr>t_chan = 0, t_transId = 1, t_timeout = 50, t_method = ''chat::foo''\<rparr> w1 = (None, w') \<and>
             log w' = [ErrorCalled 1 [VStr ''timeout_error'', VStr (timeout_message 50 ''chat::foo'')]] \<and>
             outTbl (chans w' 0) 1 = None)) \<and>
   (\<exists>h' w1.
      call \<lparr>client_fn = (\<lambda>f args. ([], Returns VUndef)),
             json_stringify = (\<lambda>v. Returns VUndef), to_string = (\<lambda>v. Returns (VStr [])),
             builtin = (\<lambda>k args. Returns VUndef)\<rparr>
           0 (Some \<lparr>c_method = Str ''foo'', c_params = Undefined, c_success = Fn 1,
                  c_error = Undefined, c_timeout = Some 50\<rparr>) [] (new_world 1 ''chat'') = Some (None, h', w1) \<and>
      (\<exists>w'. s_onMessage \<lparr>client_fn = (\<lambda>f args. ([], Returns VUndef)),
                 json_stringify = (\<lambda>v. Returns VUndef), to_string = (\<lambda>v. Returns (VStr [])),
                 builtin = (\<lambda>k args. Returns VUndef)\<rparr>
               \<lparr>e_data = Some \<lparr>m_id = Some 1, m_method = None, m_params = VUndef, m_callbacks = None,
                     m_callback = None, m_error = Some ''boom'', m_message = VStr ''bad'',
                     m_result = VUndef\<rparr>,
                 e_source = 5, e_origin = ''https://a.example''\<rparr> w1 = (None, w') \<and>
             log w' = [] \<and> outTbl (chans w' 0) 1 = None) \<and>
      (\<exists>w'. timer_fires \<lparr>client_fn = (\<lambda>f args. ([], Returns VUndef)),
                 json_stringify = (\<lambda>v. Returns VUndef), to_string = (\<lambda>v. Returns (VStr [])),
                 builtin = (\<lambda>k args. Returns VUndef)\<rparr>
               \<lparr>t_chan = 0, t_transId = 1, t_timeout = 50, t_method = ''chat::foo''\<rparr> w1 = (None, w') \<and>
             log w' = [] \<and> outTbl (chans w' 0) 1 = None))"
proof -
  let ?A = "\<lparr>c_method = Str ''foo'', c_params = Undefined, c_success = Fn 1,
                 c_error = Fn 2, c_timeout = Some 50\<rparr>"
  let ?B = "\<lparr>c_method = Str ''foo'', c_params = Undefined, c_success = Fn 1,
                 c_error = Undefined, c_timeout = Some 50\<rparr>"
  let ?W = "new_world 1 ''chat''"
  let ?E = "\<lparr>client_fn = (\<lambda>f args. ([], Returns VUndef)),
            json_stringify = (\<lambda>v. Returns VUndef), to_string = (\<lambda>v. Returns (VStr [])),
            builtin = (\<lambda>k args. Returns VUndef)\<rparr>"
  let ?T = "\<lparr>t_chan = 0, t_transId = 1, t_timeout = 50, t_method = ''chat::foo''\<rparr>"
  let ?R = "\<lparr>m_id = Some 1, m_method = None, m_params = VUndef, m_callbacks = None,
                     m_callback = None, m_error = None, m_message = VUndef, m_result = VNum 5\<rparr>"
  let ?X = "\<lparr>m_id = Some 1, m_method = None, m_params = VUndef, m_callbacks = None,
                     m_callback = None, m_error = Some ''boom'', m_message = VStr ''bad'',
                     m_result = VUndef\<rparr>"
  let ?AS = "[DoCall 0 (Some ?A) [],
         Deliver \<lparr>e_data = Some ?R, e_source = 5, e_origin = ''https://a.example''\<rparr>,
         Deliver \<lparr>e_data = Some ?X, e_source = 5, e_origin = ''https://a.example''\<rparr>,
         Expire ?T]"
  let ?targs = "[VStr ''timeout_error'', VStr (timeout_message (t_timeout ?T) (t_method ?T))]"
  note t = callbacks_resolve_at_most_once[where env="?E"]
  have h1: "log ?W = [] \<and> (\<forall>c. outTbl (chans ?W c) = Map.empty) \<and> (\<forall>a \<in> set ?AS. polite ?E a)"
    by (simp add: returns_normally_def new_world_def new_chan_def)
  note p1 = t[where as="?AS" and ?w0.0="?W", THEN conjunct1, THEN mp, OF h1]
  have sw: "s_curTranId ?W = 1" "log ?W = []"
    by (simp_all add: new_world_def)
  \<comment> \<open>a call with an error callback\<close>
  obtain h' w1 where c: "call ?E 0 (Some ?A) [] ?W = Some (None, h', w1)"
    by (simp add: call_def prune_start_def Let_def)
  note p2 = t[where c=0 and m="?A" and h="[]" and w="?W" and h'=h' and ?w1.0=w1,
      THEN conjunct2, THEN conjunct1, THEN mp, OF c]
  from p2 obtain e where e: "outTbl (chans w1 0) 1 = Some e" "e_success e = Fn 1" "e_error e = Fn 2"
    and tr: "s_transIds w1 1 = Some 0" and l1: "log w1 = []"
    by (auto simp: sw)
  have h3: "outTbl (chans w1 0) 1 = Some e \<and> s_transIds w1 1 = Some 0 \<and> (1::int) \<noteq> 0 \<and>
       m_id ?R = Some 1 \<and> m_method ?R = None \<and> m_callback ?R = None \<and> m_error ?R = None \<and>
       e_success e = Fn 1 \<and>
       snd (client_fn ?E 1 (if m_result ?R \<noteq> VUndef then [m_result ?R] else [])) = Returns VUndef"
    using e tr by simp
  note p3 = t[where w=w1 and c=0 and i=1 and e=e and rsp="?R" and f=1 and r=VUndef and src=5
      and origin="''https://a.example''",
      THEN conjunct2, THEN conjunct2, THEN conjunct1, THEN mp, OF h3]
  have 3: "\<exists>w'. s_onMessage ?E \<lparr>e_data = Some ?R, e_source = 5, e_origin = ''https://a.example''\<rparr> w1
                  = (None, w') \<and>
             log w' = [SuccessCalled 1 [VNum 5]] \<and> outTbl (chans w' 0) 1 = None"
    using p3 l1 by auto
  have h4: "outTbl (chans w1 0) 1 = Some e \<and> s_transIds w1 1 = Some 0 \<and> (1::int) \<noteq> 0 \<and>
       m_id ?X = Some 1 \<and> m_method ?X = None \<and> m_callback ?X = None \<and>
       m_error ?X = Some ''boom'' \<and> ''boom'' \<noteq> [] \<and> e_error e = Fn 2 \<and>
       snd (client_fn ?E 2 [VStr ''boom'', m_message ?X]) = Returns VUndef"
    using e tr by simp
  note p4 = t[where w=w1 and c=0 and i=1 and e=e and ersp="?X" and g=2 and r=VUndef and src=5
      and origin="''https://a.example''" and s="''boom''",
      THEN conjunct2, THEN conjunct2, THEN conjunct2, THEN conjunct1, THEN mp, OF h4]
  have 4: "\<exists>w'. s_onMessage ?E \<lparr>e_data = Some ?X, e_source = 5, e_origin = ''https://a.example''\<rparr> w1
                  = (None, w') \<and>
             log w' = [ErrorCalled 1 [VStr ''boom'', VStr ''bad'']] \<and> outTbl (chans w' 0) 1 = None"
    using p4 l1 by auto
  have h6: "outTbl (chans w1 0) 1 = Some e \<and> t_chan ?T = 0 \<and> t_transId ?T = 1 \<and> e_error e = Fn 2 \<and>
       snd (client_fn ?E 2 ?targs) = Returns VUndef"
    using e by simp
  note p6 = t[where w=w1 and c=0 and i=1 and e=e and t="?T" and g=2 and r=VUndef,
      THEN conjunct2, THEN conjunct2, THEN conjunct2, THEN conjunct2, THEN conjunct2, THEN conjunct1,
      THEN mp, OF h6]
  have 6: "\<exists>w'. timer_fires ?E ?T w1 = (None, w') \<and>
             log w' = [ErrorCalled 1 [VStr ''timeout_error'', VStr (timeout_message 50 ''chat::foo'')]] \<and>
             outTbl (chans w' 0) 1 = None"
    using p6 l1 by auto
  \<comment> \<open>a call without an error callback\<close>
  obtain h0 w0 where c0: "call ?E 0 (Some ?B) [] ?W = Some (None, h0, w0)"
    by (simp add: call_def prune_start_def Let_def)
  note q2 = t[where c=0 and m="?B" and h="[]" and w="?W" and h'=h0 and ?w1.0=w0,
      THEN conjunct2, THEN conjunct1, THEN mp, OF c0]
  from q2 obtain e0 where e0: "outTbl (chans w0 0) 1 = Some e0" "e_error e0 = Undefined"
    and tr0: "s_transIds w0 1 = Some 0" and l0: "log w0 = []"
    by (auto simp: sw)
  have h5: "outTbl (chans w0 0) 1 = Some e0 \<and> s_transIds w0 1 = Some 0 \<and> (1::int) \<noteq> 0 \<and>
       m_id ?X = Some 1 \<and> m_method ?X = None \<and> m_callback ?X = None \<and>
       m_error ?X = Some ''boom'' \<and> ''boom'' \<noteq> [] \<and> \<not> truthy (e_error e0)"
    using e0 tr0 by simp
  note p5 = t[where w=w0 and c=0 and i=1 and e=e0 and ersp="?X" and src=5
      and origin="''https://a.example''" and s="''boom''",
      THEN conjunct2, THEN conjunct2, THEN conjunct2, THEN conjunct2, THEN conjunct1, THEN mp, OF h5]
  have 5: "\<exists>w'. s_onMessage ?E \<lparr>e_data = Some ?X, e_source = 5, e_origin = ''https://a.example''\<rparr> w0
                  = (None, w') \<and> log w' = [] \<and> outTbl (chans w' 0) 1 = None"
    using p5 l0 by auto
  have h7: "outTbl (chans w0 0) 1 = Some e0 \<and> t_chan ?T = 0 \<and> t_transId ?T = 1 \<and> \<not> truthy (e_error e0)"
    using e0 by simp
  note p7 = t[where w=w0 and c=0 and i=1 and e=e0 and t="?T",
      THEN conjunct2, THEN conjunct2, THEN conjunct2, THEN conjunct2, THEN conjunct2, THEN conjunct2,
      THEN mp, OF h7]
  have 7: "\<exists>w'. timer_fires ?E ?T w0 = (None, w') \<and> log w' = [] \<and> outTbl (chans w' 0) 1 = None"
    using p7 l0 by auto
  have A: "\<exists>h' w1. call ?E 0 (Some ?A) [] ?W = Some (None, h', w1) \<and>
      (\<exists>w'. s_onMessage ?E \<lparr>e_data = Some ?R, e_source = 5, e_origin = ''https://a.example''\<rparr> w1
                  = (None, w') \<and>
             log w' = [SuccessCalled 1 [VNum 5]] \<and> outTbl (chans w' 0) 1 = None) \<and>
      (\<exists>w'. s_onMessage ?E \<lparr>e_data = Some ?X, e_source = 5, e_origin = ''https://a.example''\<rparr> w1
                  = (None, w') \<and>
             log w' = [ErrorCalled 1 [VStr ''boom'', VStr ''bad'']] \<and> outTbl (chans w' 0) 1 = None) \<and>
      (\<exists>w'. timer_fires ?E ?T w1 = (None, w') \<and>
             log w' = [ErrorCalled 1 [VStr ''timeout_error'', VStr (timeout_message 50 ''chat::foo'')]] \<and>
             outTbl (chans w' 0) 1 = None)"
    by (rule exI[of _ h'], rule exI[of _ w1]) (rule conjI[OF c conjI[OF 3 conjI[OF 4 6]]])
  have B: "\<exists>h' w1. call ?E 0 (Some ?B) [] ?W = Some (None, h', w1) \<and>
      (\<exists>w'. s_onMessage ?E \<lparr>e_data = Some ?X, e_source = 5, e_origin = ''https://a.example''\<rparr> w1
                  = (None, w') \<and> log w' = [] \<and> outTbl (chans w' 0) 1 = None) \<and>
      (\<exists>w'. timer_fires ?E ?T w1 = (None, w') \<and> log w' = [] \<and> outTbl (chans w' 0) 1 = None)"
    by (rule exI[of _ h0], rule exI[of _ w0]) (rule conjI[OF c0 conjI[OF 5 7]])
  show ?thesis
    by (rule conjI[OF p1 conjI[OF A B]])
qed

end
